theory Spec2Isabelle
  imports
    Complex_Main
    "HOL-Library.Char_ord"
    "HOL-Library.List_Lexorder"
    "HOL-Library.Option_ord"
    "HOL-Library.Product_Lexorder"
    "HOL-Library.Multiset"
    "HOL-Library.AList"
begin

section \<open>snapbtr: valuation of snapshot names\<close>

text \<open>
  The program is Python 2. Byte strings are \<^typ>\<open>string\<close> with the byte order of
  \<open>Char_ord\<close> and the lexicographic order of \<open>List_Lexorder\<close>; tuples compare
  lexicographically (\<open>Product_Lexorder\<close>); \<open>None\<close> compares below every float
  (\<open>Option_ord\<close>). Python floats are idealised as \<^typ>\<open>real\<close>, except that
  \<open>math.exp\<close> keeps its range check. Exceptions are values of \<open>py_error\<close>.
\<close>

datatype py_error = ValueError | OverflowError | KeyError

type_synonym struct_time = "int \<times> int \<times> int \<times> int \<times> int \<times> int"

subsection \<open>\<open>time.strptime(s, '%Y%m%d-%H%M%S')\<close>\<close>

text \<open>
  The library turns the format into the regular expression
  \<^verbatim>\<open>(?P<Y>\d\d\d\d)(?P<m>1[0-2]|0[1-9]|[1-9])(?P<d>3[0-1]|[1-2]\d|0[1-9]|[1-9]| [1-9])-\<close>
  \<^verbatim>\<open>(?P<H>2[0-3]|[0-1]\d|\d)(?P<M>[0-5]\d|\d)(?P<S>6[0-1]|[0-5]\d|\d)\<close>,
  takes the first match of a backtracking matcher, raises \<open>ValueError\<close> when there is no
  match or when input remains after it, and raises \<open>ValueError\<close> when year, month and day
  are not a date of the proleptic Gregorian calendar (years 1 to 9999). Each group below
  lists its matches in the matcher's order of preference.
\<close>

definition in_range :: "char \<Rightarrow> char \<Rightarrow> char \<Rightarrow> bool" where
  "in_range lo hi c = (lo \<le> c \<and> c \<le> hi)"

definition is_digit :: "char \<Rightarrow> bool" where
  "is_digit c = in_range (CHR ''0'') (CHR ''9'') c"

definition digit_val :: "char \<Rightarrow> int" where
  "digit_val c = int (of_char c) - 48"

definition two :: "(char \<Rightarrow> bool) \<Rightarrow> (char \<Rightarrow> bool) \<Rightarrow> string \<Rightarrow> (int \<times> string) list" where
  "two p q s = (case s of
       a # b # r \<Rightarrow> if p a \<and> q b then [(10 * digit_val a + digit_val b, r)] else []
     | _ \<Rightarrow> [])"

definition one :: "(char \<Rightarrow> bool) \<Rightarrow> string \<Rightarrow> (int \<times> string) list" where
  "one p s = (case s of a # r \<Rightarrow> if p a then [(digit_val a, r)] else [] | _ \<Rightarrow> [])"

definition lit :: "char \<Rightarrow> string \<Rightarrow> string list" where
  "lit c s = (case s of a # r \<Rightarrow> if a = c then [r] else [] | _ \<Rightarrow> [])"

definition re_Y :: "string \<Rightarrow> (int \<times> string) list" where
  "re_Y s = (case s of
       a # b # c # d # r \<Rightarrow>
         if is_digit a \<and> is_digit b \<and> is_digit c \<and> is_digit d
         then [(1000 * digit_val a + 100 * digit_val b + 10 * digit_val c + digit_val d, r)]
         else []
     | _ \<Rightarrow> [])"

definition re_m :: "string \<Rightarrow> (int \<times> string) list" where
  "re_m s = two (in_range (CHR ''1'') (CHR ''1'')) (in_range (CHR ''0'') (CHR ''2'')) s
          @ two (in_range (CHR ''0'') (CHR ''0'')) (in_range (CHR ''1'') (CHR ''9'')) s
          @ one (in_range (CHR ''1'') (CHR ''9'')) s"

definition re_d :: "string \<Rightarrow> (int \<times> string) list" where
  "re_d s = two (in_range (CHR ''3'') (CHR ''3'')) (in_range (CHR ''0'') (CHR ''1'')) s
          @ two (in_range (CHR ''1'') (CHR ''2'')) is_digit s
          @ two (in_range (CHR ''0'') (CHR ''0'')) (in_range (CHR ''1'') (CHR ''9'')) s
          @ one (in_range (CHR ''1'') (CHR ''9'')) s
          @ (case s of
               a # b # r \<Rightarrow>
                 if a = CHR '' '' \<and> in_range (CHR ''1'') (CHR ''9'') b then [(digit_val b, r)] else []
             | _ \<Rightarrow> [])"

definition re_H :: "string \<Rightarrow> (int \<times> string) list" where
  "re_H s = two (in_range (CHR ''2'') (CHR ''2'')) (in_range (CHR ''0'') (CHR ''3'')) s
          @ two (in_range (CHR ''0'') (CHR ''1'')) is_digit s
          @ one is_digit s"

definition re_M :: "string \<Rightarrow> (int \<times> string) list" where
  "re_M s = two (in_range (CHR ''0'') (CHR ''5'')) is_digit s @ one is_digit s"

definition re_S :: "string \<Rightarrow> (int \<times> string) list" where
  "re_S s = two (in_range (CHR ''6'') (CHR ''6'')) (in_range (CHR ''0'') (CHR ''1'')) s
          @ two (in_range (CHR ''0'') (CHR ''5'')) is_digit s
          @ one is_digit s"

definition format_regex_match :: "string \<Rightarrow> (struct_time \<times> string) list" where
  "format_regex_match s =
     [((Y, m, d, H, M, S), r7).
        (Y, r1) \<leftarrow> re_Y s, (m, r2) \<leftarrow> re_m r1, (d, r3) \<leftarrow> re_d r2, r4 \<leftarrow> lit (CHR ''-'') r3,
        (H, r5) \<leftarrow> re_H r4, (M, r6) \<leftarrow> re_M r5, (S, r7) \<leftarrow> re_S r6]"

definition is_leap :: "int \<Rightarrow> bool" where
  "is_leap y = (y mod 4 = 0 \<and> (y mod 100 \<noteq> 0 \<or> y mod 400 = 0))"

definition days_in_month :: "int \<Rightarrow> int \<Rightarrow> int" where
  "days_in_month y m =
     (if m = 2 then (if is_leap y then 29 else 28)
      else if m = 4 \<or> m = 6 \<or> m = 9 \<or> m = 11 then 30 else 31)"

definition strptime :: "string \<Rightarrow> py_error + struct_time" where
  "strptime s = (case format_regex_match s of
       [] \<Rightarrow> Inl ValueError
     | ((Y, m, d, H, M, S), rest) # _ \<Rightarrow>
         if rest \<noteq> [] then Inl ValueError
         else if 1 \<le> Y \<and> Y \<le> 9999 \<and> 1 \<le> m \<and> m \<le> 12 \<and> 1 \<le> d \<and> d \<le> days_in_month Y m
         then Inr (Y, m, d, H, M, S)
         else Inl ValueError)"

subsection \<open>\<open>time.mktime\<close>\<close>

text \<open>
  \<open>time.mktime\<close> reads the tuple as local time, in the time zone of the process. The
  zone belongs to the environment and is a parameter: a \<open>zone\<close> gives, for the number of
  seconds that the tuple counts from 1970-01-01 00:00:00 on the wall clock (\<open>timegm\<close>,
  proleptic Gregorian calendar, out-of-range seconds carried over as the C library does),
  the seconds since the epoch that the C library's \<open>mktime\<close> returns for it
  (\<open>strptime\<close> leaves \<open>tm_isdst\<close> at -1, so the library decides by the wall clock
  alone; a 64-bit \<open>time_t\<close>, so the library call does not fail). \<open>utc\<close> is the zone
  of a process that runs in UTC. \<open>dst_zone\<close> is Europe/Amsterdam around the change to
  summer time of 28 March 2010: one hour ahead of UTC before 03:00 on the wall clock
  (the hour from 02:00, which that night skips, included) and two hours from then on.
  Python 2 maps a year below 1900 by its two-digit rule (69 to 99 are 1969 to 1999,
  0 to 68 are 2000 to 2068) and raises \<open>ValueError\<close> for the years 100 to 1899.
\<close>

type_synonym zone = "int \<Rightarrow> int"

definition utc :: zone where
  "utc w = w"

definition dst_zone :: zone where
  "dst_zone w = (if w < 1269745200 then w - 3600 else w - 7200)"

definition days_before_year :: "int \<Rightarrow> int" where
  "days_before_year y = (let p = y - 1 in p * 365 + p div 4 - p div 100 + p div 400)"

definition days_before_month :: "int \<Rightarrow> int \<Rightarrow> int" where
  "days_before_month y m = sum_list (map (days_in_month y) [1..m - 1])"

definition ymd2ord :: "int \<Rightarrow> int \<Rightarrow> int \<Rightarrow> int" where
  "ymd2ord y m d = days_before_year y + days_before_month y m + d"

definition timegm :: "struct_time \<Rightarrow> int" where
  "timegm tm = (case tm of (y, mo, d, h, mi, s) \<Rightarrow>
     (ymd2ord y mo d - 719163) * 86400 + h * 3600 + mi * 60 + s)"

definition mktime :: "zone \<Rightarrow> struct_time \<Rightarrow> py_error + int" where
  "mktime tz tm = (case tm of (y, mo, d, h, mi, s) \<Rightarrow>
     if y < 1900 then
       (if 69 \<le> y \<and> y \<le> 99 then Inr (tz (timegm (y + 1900, mo, d, h, mi, s)))
        else if 0 \<le> y \<and> y \<le> 68 then Inr (tz (timegm (y + 2000, mo, d, h, mi, s)))
        else Inl ValueError)
     else Inr (tz (timegm tm)))"

subsection \<open>\<open>math.exp\<close>, \<open>TIME_SCALE\<close> and \<open>timef\<close>\<close>

text \<open>\<open>math.exp\<close> raises \<open>OverflowError\<close> when the result leaves the range of a double.\<close>

definition math_exp :: "real \<Rightarrow> py_error + real" where
  "math_exp x = (if exp x < 2 ^ 1024 then Inr (exp x) else Inl OverflowError)"

definition TIME_SCALE :: real where
  "TIME_SCALE = of_int \<lceil>2 ^ 32 / ln (2 ^ 32) :: real\<rceil>"

text \<open>\<open>os.path.split(x)[1]\<close>: what follows the last slash.\<close>

definition os_path_split_tail :: "string \<Rightarrow> string" where
  "os_path_split_tail x = rev (takeWhile (\<lambda>c. c \<noteq> CHR ''/'') (rev x))"

text \<open>The bare \<open>except\<close> of \<open>timef\<close> turns every exception into \<open>None\<close>.\<close>

definition timef :: "zone \<Rightarrow> string \<Rightarrow> real option" where
  "timef tz x = (case strptime (os_path_split_tail x) of
       Inl _ \<Rightarrow> None
     | Inr tm \<Rightarrow> (case mktime tz tm of
         Inl _ \<Rightarrow> None
       | Inr t \<Rightarrow> (case math_exp (real_of_int t / TIME_SCALE) of
           Inl _ \<Rightarrow> None
         | Inr v \<Rightarrow> Some v)))"

text \<open>Truth value of \<open>timef(y)\<close> in a condition: \<open>None\<close> and \<open>0.0\<close> are false.\<close>

definition truthy :: "real option \<Rightarrow> bool" where
  "truthy v = (case v of None \<Rightarrow> False | Some r \<Rightarrow> r \<noteq> 0)"

section \<open>The planner: \<open>sorted_value\<close>\<close>

fun poles :: "'a list \<Rightarrow> ('a \<times> 'a) list" where
  "poles [] = []"
| "poles [x] = []"
| "poles (x # y # rest) = (x, y) # poles (y # rest)"

fun all_but_last :: "'a list \<Rightarrow> 'a list" where
  "all_but_last [] = []"
| "all_but_last [x] = []"
| "all_but_last (x # y # rest) = x # all_but_last (y # rest)"

text \<open>
  A \<open>dict\<close> is an association list with distinct keys; \<open>dict(items)\<close> stores the
  items one after the other, a later item replacing the value of an equal key.
\<close>

definition dict :: "('k \<times> 'v) list \<Rightarrow> ('k \<times> 'v) list" where
  "dict items = fold (\<lambda>(k, v). AList.update k v) items []"

definition initial_candidates :: "zone \<Rightarrow> string list \<Rightarrow> (string \<times> real) list" where
  "initial_candidates tz dirs =
     dict (all_but_last [(x, the xf). (xf, x) \<leftarrow> sort (map (\<lambda>y. (timef tz y, y)) dirs), truthy xf])"

definition remain_of :: "(string \<times> real) list \<Rightarrow> (real \<times> string) list" where
  "remain_of candidates = sort (map (\<lambda>(k, v). (v, k)) candidates)"

definition diffs_of :: "(real \<times> string) list \<Rightarrow> (real \<times> string \<times> string) list" where
  "diffs_of remain =
     map (\<lambda>((frm_tf, frm), (to_tf, to)). (to_tf - frm_tf, frm, to)) (poles remain)"

definition select :: "(string \<times> real) list \<Rightarrow> real \<times> string \<times> string" where
  "select candidates = min_list (diffs_of (remain_of candidates))"

lemma poles_length: "length (poles xs) = length xs - 1"
  by (induction xs rule: poles.induct) auto

lemma poles_snd_in: "(a, b) \<in> set (poles xs) \<Longrightarrow> b \<in> set xs \<and> a \<in> set xs"
  by (induction xs rule: poles.induct) auto

lemma select_in_diffs:
  assumes "1 < length candidates"
  shows "select candidates \<in> set (diffs_of (remain_of candidates))"
proof -
  have "diffs_of (remain_of candidates) \<noteq> []"
    using assms by (simp add: diffs_of_def remain_of_def poles_length flip: length_0_conv)
  then show ?thesis
    unfolding select_def by (simp add: min_list_Min)
qed

lemma select_mto_key:
  assumes "1 < length candidates" and "select candidates = (mdiff, mfrm, mto)"
  shows "mto \<in> fst ` set candidates"
proof -
  from select_in_diffs [OF assms(1)] assms(2)
  obtain p where "p \<in> set (poles (remain_of candidates))" and "mto = snd (snd p)"
    by (auto simp: diffs_of_def)
  then have "snd p \<in> set (remain_of candidates)"
    using poles_snd_in [of "fst p" "snd p"] by simp
  with \<open>mto = snd (snd p)\<close> show ?thesis
    by (force simp: remain_of_def)
qed

lemma length_delete_less:
  "k \<in> fst ` set al \<Longrightarrow> length (AList.delete k al) < length al"
  by (auto simp: AList.delete_eq intro!: length_filter_less)

text \<open>The \<open>while\<close> loop of \<open>_sorted_value\<close> and the final \<open>yield\<close>; the result is the
  list of the values yielded. With no candidate left, \<open>candidates.iterkeys().next()\<close>
  raises \<open>StopIteration\<close>, which ends a Python 2 generator.\<close>

function sorted_value_loop :: "(string \<times> real) list \<Rightarrow> string list" where
  "sorted_value_loop candidates =
     (if 1 < length candidates then
        (case select candidates of (mdiff, mfrm, mto) \<Rightarrow>
           mto # sorted_value_loop (AList.delete mto candidates))
      else (case candidates of [] \<Rightarrow> [] | (k, v) # _ \<Rightarrow> [k]))"
  by pat_completeness auto
termination
proof (relation "measure length", simp, clarsimp)
  fix candidates :: "(string \<times> real) list" and mdiff mfrm mto
  assume "Suc 0 < length candidates" and "(mdiff, mfrm, mto) = select candidates"
  then have "mto \<in> fst ` set candidates"
    using select_mto_key [of candidates mdiff mfrm mto] by simp
  then show "length (AList.delete mto candidates) < length candidates"
    by (rule length_delete_less)
qed

definition sorted_value' :: "zone \<Rightarrow> string list \<Rightarrow> string list" where
  "sorted_value' tz dirs = sorted_value_loop (initial_candidates tz dirs)"

definition sorted_value :: "zone \<Rightarrow> string list \<Rightarrow> string list" where
  "sorted_value tz dirs = (if length dirs \<le> 0 then dirs else sorted_value' tz dirs)"

section \<open>The controller: \<open>cleandir\<close>\<close>

text \<open>The \<open>targets\<close> object: the four options of the command line, each absent or an integer.\<close>

record targets =
  keep_backups :: "int option"
  target_freespace :: "int option"
  target_backups :: "int option"
  target_removed :: "int option"

text \<open>
  The \<open>operations\<close> object, over a backend state \<open>'s\<close>. \<open>listdir\<close> and
  \<open>freespace\<close> read the state, \<open>unsnap\<close> changes it or raises. Tracing and printing
  are left out.
\<close>

record 's operations =
  listdir :: "'s \<Rightarrow> string list"
  freespace :: "'s \<Rightarrow> int"
  unsnap :: "'s \<Rightarrow> string \<Rightarrow> py_error + 's"

text \<open>The local variables of \<open>cleandir\<close> that live across iterations
  (\<open>target_removed_var\<close> is the local \<open>target_removed\<close>).\<close>

record loop_state =
  last_dirs :: "string list"
  target_removed_var :: "int option"
  was_above_target_freespace :: "bool option"
  was_above_target_backups :: "bool option"

datatype stop =
    Reached_keep_backups
  | Reached_max_removed
  | Targets_satisfied
  | No_more_backups_left

datatype fatal =
    No_more_directories_to_clean
  | No_directories_removed
  | Unsnap_failed py_error

datatype step = Break stop | Raise fatal | Delete loop_state string

datatype outcome = Clean stop | Fatal fatal | Out_of_fuel

record 's run =
  outcome :: outcome
  backend :: 's
  removed :: "string list"

definition first :: "'a list \<Rightarrow> 'a option" where
  "first it = (case it of [] \<Rightarrow> None | x # _ \<Rightarrow> Some x)"

text \<open>The two blocks that set \<open>do_del\<close>; each takes and returns \<open>do_del\<close> and its
  \<open>was_above\<close> flag.\<close>

definition vote_freespace ::
  "int option \<Rightarrow> int \<Rightarrow> bool option \<times> bool option \<Rightarrow> bool option \<times> bool option" where
  "vote_freespace target_fsp fsp v = (case v of (do_del, was_above) \<Rightarrow>
     (case target_fsp of
        None \<Rightarrow> (do_del, was_above)
      | Some t \<Rightarrow>
          if t \<le> fsp then
            (if do_del = None then Some False else do_del,
             if was_above = Some True \<or> was_above = None then Some False else was_above)
          else (Some True, if was_above = None then Some True else was_above)))"

definition vote_backups ::
  "int option \<Rightarrow> int \<Rightarrow> bool option \<times> bool option \<Rightarrow> bool option \<times> bool option" where
  "vote_backups target_bk dirs_len v = (case v of (do_del, was_above) \<Rightarrow>
     (case target_bk of
        None \<Rightarrow> (do_del, was_above)
      | Some t \<Rightarrow>
          if dirs_len \<le> t then
            (if do_del = None then Some False else do_del,
             if was_above = Some True \<or> was_above = None then Some False else was_above)
          else (Some True, if was_above = None then Some True else was_above)))"

text \<open>One pass through the body of \<open>while True\<close>, up to the call of \<open>unsnap\<close>.\<close>

definition cleandir_body :: "zone \<Rightarrow> 's operations \<Rightarrow> targets \<Rightarrow> loop_state \<Rightarrow> 's \<Rightarrow> step" where
  "cleandir_body tz ops tg st s =
     (let dirs = sort (listdir ops s); dirs_len = int (length dirs) in
      if dirs_len \<le> 0 then Raise No_more_directories_to_clean
      else if sort dirs = last_dirs st then Raise No_directories_removed
      else
        let st1 = st\<lparr>last_dirs := dirs\<rparr> in
        if (case keep_backups tg of None \<Rightarrow> False | Some k \<Rightarrow> dirs_len \<le> k)
        then Break Reached_keep_backups
        else if (case target_removed_var st1 of None \<Rightarrow> False | Some r \<Rightarrow> r \<le> 0)
        then Break Reached_max_removed
        else
          let st2 = st1\<lparr>target_removed_var := map_option (\<lambda>r. r - 1) (target_removed_var st1)\<rparr>;
              (do_del1, waf) = vote_freespace (target_freespace tg) (freespace ops s)
                                 (None, was_above_target_freespace st2);
              (do_del2, wab) = vote_backups (target_backups tg) dirs_len
                                 (do_del1, was_above_target_backups st2);
              st3 = st2\<lparr>was_above_target_freespace := waf, was_above_target_backups := wab\<rparr>
          in if do_del2 \<noteq> Some True then Break Targets_satisfied
             else (case first (sorted_value tz dirs) of
                     None \<Rightarrow> Break No_more_backups_left
                   | Some next_del \<Rightarrow> Delete st3 next_del))"

text \<open>The loop, with fuel for the iterations and the log of the names removed.\<close>

fun cleandir_loop ::
  "zone \<Rightarrow> nat \<Rightarrow> 's operations \<Rightarrow> targets \<Rightarrow> loop_state \<Rightarrow> 's \<Rightarrow> string list \<Rightarrow> 's run" where
  "cleandir_loop tz 0 ops tg st s acc = \<lparr>outcome = Out_of_fuel, backend = s, removed = acc\<rparr>"
| "cleandir_loop tz (Suc n) ops tg st s acc =
     (case cleandir_body tz ops tg st s of
        Break r \<Rightarrow> \<lparr>outcome = Clean r, backend = s, removed = acc\<rparr>
      | Raise e \<Rightarrow> \<lparr>outcome = Fatal e, backend = s, removed = acc\<rparr>
      | Delete st' next_del \<Rightarrow>
          (case unsnap ops s next_del of
             Inl e \<Rightarrow> \<lparr>outcome = Fatal (Unsnap_failed e), backend = s, removed = acc\<rparr>
           | Inr s' \<Rightarrow> cleandir_loop tz n ops tg st' s' (acc @ [next_del])))"

definition initial_state :: "targets \<Rightarrow> loop_state" where
  "initial_state tg =
     \<lparr>last_dirs = [], target_removed_var = target_removed tg,
      was_above_target_freespace = None, was_above_target_backups = None\<rparr>"

definition cleandir :: "zone \<Rightarrow> nat \<Rightarrow> 's operations \<Rightarrow> targets \<Rightarrow> 's \<Rightarrow> 's run" where
  "cleandir tz fuel ops tg s = cleandir_loop tz fuel ops tg (initial_state tg) s []"

subsection \<open>The backends\<close>

text \<open>\<open>Operations\<close>: the directory listing, the free space and the deletion of a
  subvolume belong to the operating system and are parameters; \<open>listdir\<close> keeps the
  names that \<open>timef\<close> values.\<close>

definition Operations_listdir :: "zone \<Rightarrow> string list \<Rightarrow> string list" where
  "Operations_listdir tz entries = [d \<leftarrow> entries. truthy (timef tz d)]"

definition Operations ::
  "zone \<Rightarrow> ('s \<Rightarrow> string list) \<Rightarrow> ('s \<Rightarrow> int) \<Rightarrow> ('s \<Rightarrow> string \<Rightarrow> py_error + 's) \<Rightarrow> 's operations" where
  "Operations tz os_listdir statvfs_free btrfs_delete =
     \<lparr>listdir = (\<lambda>s. Operations_listdir tz (os_listdir s)),
      freespace = statvfs_free,
      unsnap = btrfs_delete\<rparr>"

text \<open>\<open>FakeOperations\<close>: a dictionary from names to sizes and the free space.\<close>

record fake =
  fake_dirs :: "(string \<times> int) list"
  fake_space :: int

definition fake_unsnap :: "fake \<Rightarrow> string \<Rightarrow> py_error + fake" where
  "fake_unsnap s dir = (case map_of (fake_dirs s) dir of
       None \<Rightarrow> Inl KeyError
     | Some v \<Rightarrow> Inr (s\<lparr>fake_space := fake_space s + v, fake_dirs := AList.delete dir (fake_dirs s)\<rparr>))"

definition FakeOperations :: "fake operations" where
  "FakeOperations =
     \<lparr>listdir = (\<lambda>s. map fst (fake_dirs s)), freespace = fake_space, unsnap = fake_unsnap\<rparr>"

text \<open>The backend of the built-in test in \<open>main\<close>.\<close>

definition test_operations :: fake where
  "test_operations =
     \<lparr>fake_dirs =
        [(''20101201-000000'', 0), (''20101201-010000'', 1), (''20101201-020000'', 2),
         (''20101201-030000'', 3), (''20101201-040000'', 4), (''20101201-050000'', 5),
         (''20101201-060000'', 6), (''20101201-070000'', 7), (''20101201-080000'', 8)],
      fake_space = 5\<rparr>"

section \<open>Properties of the planner\<close>

declare sorted_value_loop.simps [simp del]

lemma all_but_last_butlast: "all_but_last xs = butlast xs"
  by (induction xs rule: all_but_last.induct) auto

lemma update_fresh: "k \<notin> fst ` set acc \<Longrightarrow> AList.update k v acc = acc @ [(k, v)]"
  by (induction acc) auto

lemma fold_update_distinct:
  "distinct (map fst (acc @ items)) \<Longrightarrow>
     fold (\<lambda>(k, v). AList.update k v) items acc = acc @ items"
proof (induction items arbitrary: acc)
  case Nil
  then show ?case by simp
next
  case (Cons p items)
  obtain k v where p: "p = (k, v)"
    by force
  from Cons.prems have "k \<notin> fst ` set acc"
    by (auto simp: p)
  then have "AList.update k v acc = acc @ [(k, v)]"
    by (rule update_fresh)
  moreover have "distinct (map fst ((acc @ [(k, v)]) @ items))"
    using Cons.prems by (simp add: p)
  ultimately show ?case
    using Cons.IH [of "acc @ [(k, v)]"] by (simp add: p)
qed

lemma dict_distinct: "distinct (map fst items) \<Longrightarrow> dict items = items"
  unfolding dict_def using fold_update_distinct [of "[]" items] by simp

lemma poles_sorted_less:
  "sorted xs \<Longrightarrow> distinct xs \<Longrightarrow> (a, b) \<in> set (poles xs) \<Longrightarrow> a < (b :: 'a :: linorder)"
  by (induction xs rule: poles.induct) (auto simp: less_le)

lemma set_remain_of: "set (remain_of c) = (\<lambda>(k, v). (v, k)) ` set c"
  by (simp add: remain_of_def)

lemma sorted_remain_of: "sorted (remain_of c)"
  by (simp add: remain_of_def)

lemma distinct_remain_of: "distinct (map fst c) \<Longrightarrow> distinct (remain_of c)"
proof -
  assume d: "distinct (map fst c)"
  then have "distinct c"
    by (simp add: distinct_map)
  moreover have "inj_on (\<lambda>(k, v). (v, k)) (set c)"
    by (auto simp: inj_on_def)
  ultimately show ?thesis
    by (simp add: remain_of_def distinct_map)
qed

lemma length_remain_of: "length (remain_of c) = length c"
  by (simp add: remain_of_def)

lemma select_pair:
  assumes "1 < length c" and "distinct (map fst c)" and "select c = (md, mf, mt)"
  shows "\<exists>vf vt. ((vf, mf), (vt, mt)) \<in> set (poles (remain_of c)) \<and> md = vt - vf \<and>
           (mf, vf) \<in> set c \<and> (mt, vt) \<in> set c \<and> (vf, mf) < (vt, mt)"
proof -
  from select_in_diffs [OF assms(1)] assms(3)
  obtain vf vt where p: "((vf, mf), (vt, mt)) \<in> set (poles (remain_of c))" and md: "md = vt - vf"
    by (auto simp: diffs_of_def)
  from poles_snd_in [OF p] have "(mf, vf) \<in> set c" and "(mt, vt) \<in> set c"
    by (auto simp: set_remain_of)
  moreover have "(vf, mf) < (vt, mt)"
    using poles_sorted_less [OF sorted_remain_of distinct_remain_of [OF assms(2)] p] .
  ultimately show ?thesis
    using p md by blast
qed

lemma loop_step:
  "1 < length c \<Longrightarrow> select c = (md, mf, mt) \<Longrightarrow>
     sorted_value_loop c = mt # sorted_value_loop (AList.delete mt c)"
  by (subst sorted_value_loop.simps) simp

lemma loop_small:
  "\<not> 1 < length c \<Longrightarrow> sorted_value_loop c = map fst c"
  by (subst sorted_value_loop.simps) (auto split: list.splits)

lemma mset_keys_delete:
  assumes "distinct (map fst c)" and "k \<in> fst ` set c"
  shows "add_mset k (mset (map fst (AList.delete k c))) = mset (map fst c)"
proof -
  have "map fst (AList.delete k c) = remove1 k (map fst c)"
    using assms(1) by (simp add: delete_keys distinct_remove1_removeAll)
  then have "mset (map fst (AList.delete k c)) = mset (map fst c) - {#k#}"
    by (simp only: mset_remove1)
  moreover have "k \<in># mset (map fst c)"
    using assms(2) by simp
  ultimately show ?thesis
    by (simp only: insert_DiffM)
qed

lemma loop_mset:
  "distinct (map fst c) \<Longrightarrow> mset (sorted_value_loop c) = mset (map fst c)"
proof (induction c rule: sorted_value_loop.induct)
  case (1 c)
  show ?case
  proof (cases "1 < length c")
    case True
    obtain md mf mt where sel: "select c = (md, mf, mt)"
      by (cases "select c") auto
    have key: "mt \<in> fst ` set c"
      using True sel by (rule select_mto_key)
    have "mset (sorted_value_loop (AList.delete mt c)) = mset (map fst (AList.delete mt c))"
      using "1.IH" [OF True sel [symmetric] refl] "1.prems" by (simp add: distinct_delete)
    then have "mset (sorted_value_loop c) = add_mset mt (mset (map fst (AList.delete mt c)))"
      by (simp only: loop_step [OF True sel] mset.simps)
    also have "\<dots> = mset (map fst c)"
      using "1.prems" key by (rule mset_keys_delete)
    finally show ?thesis .
  next
    case False
    then show ?thesis
      by (simp add: loop_small)
  qed
qed

lemma set_delete: "set (AList.delete k al) = {p \<in> set al. fst p \<noteq> k}"
  by (auto simp: AList.delete_eq)

lemma loop_nonempty: "distinct (map fst c) \<Longrightarrow> c \<noteq> [] \<Longrightarrow> sorted_value_loop c \<noteq> []"
  using loop_mset [of c] by (metis map_is_Nil_conv mset_zero_iff)

lemma loop_last:
  "distinct (map fst c) \<Longrightarrow> c \<noteq> [] \<Longrightarrow>
     \<exists>v. (last (sorted_value_loop c), v) \<in> set c \<and>
         (\<forall>p \<in> set c. (v, last (sorted_value_loop c)) \<le> (snd p, fst p))"
proof (induction c rule: sorted_value_loop.induct)
  case (1 c)
  show ?case
  proof (cases "1 < length c")
    case True
    obtain md mf mt where sel: "select c = (md, mf, mt)"
      by (cases "select c") auto
    let ?c' = "AList.delete mt c"
    from select_pair [OF True "1.prems"(1) sel]
    obtain vf vt where f: "(mf, vf) \<in> set c" and t: "(mt, vt) \<in> set c"
      and lt: "(vf, mf) < (vt, mt)"
      by blast
    have "mf \<noteq> mt"
    proof
      assume "mf = mt"
      with f t "1.prems"(1) have "vf = vt"
        by (metis eq_key_imp_eq_value)
      with \<open>mf = mt\<close> lt show False
        by simp
    qed
    then have f': "(mf, vf) \<in> set ?c'"
      using f by (simp add: set_delete)
    then have ne: "?c' \<noteq> []"
      by auto
    have d': "distinct (map fst ?c')"
      using "1.prems"(1) by (simp add: distinct_delete)
    from "1.IH" [OF True sel [symmetric] refl d' ne]
    obtain v where in': "(last (sorted_value_loop ?c'), v) \<in> set ?c'"
      and least': "\<forall>p \<in> set ?c'. (v, last (sorted_value_loop ?c')) \<le> (snd p, fst p)"
      by blast
    have last_eq: "last (sorted_value_loop c) = last (sorted_value_loop ?c')"
      using loop_nonempty [OF d' ne] by (simp add: loop_step [OF True sel])
    have "(v, last (sorted_value_loop ?c')) \<le> (snd p, fst p)" if p: "p \<in> set c" for p
    proof (cases "fst p = mt")
      case False
      with p least' show ?thesis
        by (simp add: set_delete)
    next
      case True
      with p t "1.prems"(1) have "p = (mt, vt)"
        by (metis eq_key_imp_eq_value prod.collapse)
      moreover have "(v, last (sorted_value_loop ?c')) \<le> (vf, mf)"
        using least' f' by force
      then have "(v, last (sorted_value_loop ?c')) \<le> (vt, mt)"
        using lt by (rule order.trans [OF _ less_imp_le])
      ultimately show ?thesis
        by (simp only: fst_conv snd_conv)
    qed
    moreover have "(last (sorted_value_loop ?c'), v) \<in> set c"
      using in' by (simp add: set_delete)
    ultimately show ?thesis
      unfolding last_eq by blast
  next
    case False
    with "1.prems"(2) obtain k v where "c = [(k, v)]"
      by (cases c) auto
    then show ?thesis
      by (simp add: loop_small)
  qed
qed

subsection \<open>The valued names and the candidates\<close>

definition valid :: "zone \<Rightarrow> string \<Rightarrow> bool" where
  "valid tz d = truthy (timef tz d)"

definition valued :: "zone \<Rightarrow> string list \<Rightarrow> (real option \<times> string) list" where
  "valued tz dirs = sort (map (\<lambda>y. (timef tz y, y)) [y \<leftarrow> dirs. valid tz y])"

lemma comprehension_filter:
  "[(x, the xf). (xf, x) \<leftarrow> ps, truthy xf] =
     map (\<lambda>(xf, x). (x, the xf)) [p \<leftarrow> ps. truthy (fst p)]"
  by (induction ps) auto

lemma filter_valued:
  "[p \<leftarrow> sort (map (\<lambda>y. (timef tz y, y)) dirs). truthy (fst p)] = valued tz dirs"
  by (simp add: valued_def valid_def filter_sort filter_map comp_def)

lemma fst_swap_the: "fst \<circ> (\<lambda>(xf, x). (x, the xf)) = snd"
  by auto

lemma map_snd_swap: "map fst (map (\<lambda>(xf, x). (x, the xf)) ps) = map snd ps"
  by (simp add: fst_swap_the)

lemma mset_snd_valued: "mset (map snd (valued tz dirs)) = mset [y \<leftarrow> dirs. valid tz y]"
proof -
  have "mset (map snd (valued tz dirs)) = image_mset snd (mset (valued tz dirs))"
    by simp
  also have "\<dots> = image_mset snd (image_mset (\<lambda>y. (timef tz y, y)) (mset [y \<leftarrow> dirs. valid tz y]))"
    by (simp add: valued_def)
  also have "\<dots> = mset [y \<leftarrow> dirs. valid tz y]"
    by (simp add: image_mset.compositionality comp_def)
  finally show ?thesis .
qed

lemma distinct_snd_valued: "distinct dirs \<Longrightarrow> distinct (map snd (valued tz dirs))"
  using mset_snd_valued [of tz dirs] mset_eq_imp_distinct_iff distinct_filter by blast

lemma length_valued: "length (valued tz dirs) = length [y \<leftarrow> dirs. valid tz y]"
  by (simp add: valued_def)

lemma initial_candidates_eq:
  assumes "distinct dirs"
  shows "initial_candidates tz dirs = butlast (map (\<lambda>(xf, x). (x, the xf)) (valued tz dirs))"
proof -
  have "distinct (map fst (butlast (map (\<lambda>(xf, x). (x, the xf)) (valued tz dirs))))"
    using distinct_snd_valued [OF assms]
    by (simp add: map_butlast fst_swap_the distinct_butlast)
  then show ?thesis
    by (simp add: initial_candidates_def comprehension_filter filter_valued
        all_but_last_butlast dict_distinct)
qed

lemma keys_initial_candidates:
  "distinct dirs \<Longrightarrow> map fst (initial_candidates tz dirs) = butlast (map snd (valued tz dirs))"
  by (simp add: initial_candidates_eq map_butlast fst_swap_the)

lemma sorted_value_eq_loop: "sorted_value tz dirs = sorted_value_loop (initial_candidates tz dirs)"
proof (cases "dirs = []")
  case True
  then show ?thesis
    by (simp add: sorted_value_def initial_candidates_def dict_def loop_small)
next
  case False
  then show ?thesis
    by (simp add: sorted_value_def sorted_value'_def)
qed

lemma mset_sorted_value:
  assumes "distinct dirs"
  shows "mset (sorted_value tz dirs) = mset (butlast (map snd (valued tz dirs)))"
proof -
  have "distinct (map fst (initial_candidates tz dirs))"
    using distinct_snd_valued [OF assms] assms
    by (simp add: keys_initial_candidates distinct_butlast)
  then show ?thesis
    using assms by (simp only: sorted_value_eq_loop loop_mset keys_initial_candidates)
qed

lemma sorted_le_last: "sorted xs \<Longrightarrow> x \<in> set xs \<Longrightarrow> x \<le> last xs"
  by (induction xs) auto

lemma prod_le_fst: "(a :: 'a :: order, b :: 'b :: order) \<le> (c, d) \<Longrightarrow> a \<le> c"
  by (auto simp: less_eq_prod_def)

lemma set_valued: "set (valued tz dirs) = (\<lambda>y. (timef tz y, y)) ` {y \<in> set dirs. valid tz y}"
  by (simp add: valued_def)

lemma sorted_valued: "sorted (valued tz dirs)"
  by (simp add: valued_def)

lemma valued_last:
  assumes "valued tz dirs \<noteq> []"
  obtains h where "last (valued tz dirs) = (timef tz h, h)" and "h \<in> set dirs" and "valid tz h"
    and "\<And>x. x \<in> set dirs \<Longrightarrow> valid tz x \<Longrightarrow> (timef tz x, x) \<le> (timef tz h, h)"
proof -
  from assms have "last (valued tz dirs) \<in> set (valued tz dirs)"
    by simp
  then obtain h where h: "last (valued tz dirs) = (timef tz h, h)" "h \<in> set dirs" "valid tz h"
    by (auto simp: set_valued)
  have "(timef tz x, x) \<le> (timef tz h, h)" if "x \<in> set dirs" "valid tz x" for x
  proof -
    from that have "(timef tz x, x) \<in> set (valued tz dirs)"
      by (simp add: set_valued)
    with sorted_valued show ?thesis
      unfolding h(1) [symmetric] by (rule sorted_le_last)
  qed
  with h show thesis
    by (rule that)
qed

lemma sorted_value_held_out:
  assumes d: "distinct dirs" and ne: "valued tz dirs \<noteq> []"
  shows "\<exists>h. h \<in> set dirs \<and> valid tz h \<and>
           (\<forall>x \<in> set dirs. valid tz x \<longrightarrow> (timef tz x, x) \<le> (timef tz h, h)) \<and>
           add_mset h (mset (sorted_value tz dirs)) = mset [d \<leftarrow> dirs. valid tz d] \<and>
           h \<notin> set (sorted_value tz dirs)"
proof -
  from valued_last [OF ne] obtain h where h: "last (valued tz dirs) = (timef tz h, h)"
    "h \<in> set dirs" "valid tz h"
    "\<And>x. x \<in> set dirs \<Longrightarrow> valid tz x \<Longrightarrow> (timef tz x, x) \<le> (timef tz h, h)"
    by blast
  let ?ks = "map snd (valued tz dirs)"
  have "last ?ks = h"
    using ne h(1) by (simp add: last_map)
  moreover have "?ks \<noteq> []"
    using ne by simp
  ultimately have ks: "?ks = butlast ?ks @ [h]"
    by (metis append_butlast_last_id)
  have "mset ?ks = add_mset h (mset (butlast ?ks))"
    by (subst ks) simp
  then have m: "add_mset h (mset (sorted_value tz dirs)) = mset [d \<leftarrow> dirs. valid tz d]"
    by (simp only: mset_sorted_value [OF d] mset_snd_valued)
  have "distinct (butlast ?ks @ [h])"
    using distinct_snd_valued [OF d] ks by simp
  then have "h \<notin> set (butlast ?ks)"
    by simp
  moreover have "set (sorted_value tz dirs) = set (butlast ?ks)"
    using mset_sorted_value [OF d] by (rule mset_eq_setD)
  ultimately have "h \<notin> set (sorted_value tz dirs)"
    by simp
  with h m show ?thesis
    by blast
qed

lemma sorted_value_few:
  assumes "distinct dirs" and "length [d \<leftarrow> dirs. valid tz d] < 2"
  shows "sorted_value tz dirs = []"
proof -
  have "length (valued tz dirs) < 2"
    using assms(2) by (simp only: length_valued)
  then have "length (butlast (map snd (valued tz dirs))) = 0"
    by simp
  then have "butlast (map snd (valued tz dirs)) = []"
    by (simp only: length_0_conv)
  then show ?thesis
    using mset_sorted_value [OF assms(1), of tz] by simp
qed

text \<open>
  C1. For a list of distinct names with at least two valued ones, \<open>sorted_value\<close>
  yields a permutation of the valued names without one of highest value: its length is
  the number of valued names minus one and that name is not yielded. With fewer than two
  valued names nothing is yielded.
\<close>

theorem sorted_value_permutation:
  assumes "distinct dirs"
  shows "(2 \<le> length [d \<leftarrow> dirs. valid tz d] \<longrightarrow>
            (\<exists>h. h \<in> set dirs \<and> valid tz h \<and>
               (\<forall>x \<in> set dirs. valid tz x \<longrightarrow> timef tz x \<le> timef tz h) \<and>
               mset (sorted_value tz dirs) = mset [d \<leftarrow> dirs. valid tz d] - {#h#} \<and>
               length (sorted_value tz dirs) = length [d \<leftarrow> dirs. valid tz d] - 1 \<and>
               h \<notin> set (sorted_value tz dirs)))
       \<and> (length [d \<leftarrow> dirs. valid tz d] < 2 \<longrightarrow> sorted_value tz dirs = [])"
proof (intro conjI impI)
  assume "2 \<le> length [d \<leftarrow> dirs. valid tz d]"
  then have "valued tz dirs \<noteq> []"
    using length_valued [of tz dirs] by auto
  from sorted_value_held_out [OF assms this]
  obtain h where h: "h \<in> set dirs" "valid tz h"
    "\<forall>x \<in> set dirs. valid tz x \<longrightarrow> (timef tz x, x) \<le> (timef tz h, h)"
    "add_mset h (mset (sorted_value tz dirs)) = mset [d \<leftarrow> dirs. valid tz d]"
    "h \<notin> set (sorted_value tz dirs)"
    by blast
  from h(3) have le: "\<forall>x \<in> set dirs. valid tz x \<longrightarrow> timef tz x \<le> timef tz h"
    by (blast dest: prod_le_fst)
  from h(4) have m: "mset (sorted_value tz dirs) = mset [d \<leftarrow> dirs. valid tz d] - {#h#}"
    by (metis add_mset_remove_trivial)
  from h(4) have "Suc (length (sorted_value tz dirs)) = length [d \<leftarrow> dirs. valid tz d]"
    by (metis size_add_mset size_mset)
  then have "length (sorted_value tz dirs) = length [d \<leftarrow> dirs. valid tz d] - 1"
    by simp
  with h(1,2,5) le m
  show "\<exists>h. h \<in> set dirs \<and> valid tz h \<and>
               (\<forall>x \<in> set dirs. valid tz x \<longrightarrow> timef tz x \<le> timef tz h) \<and>
               mset (sorted_value tz dirs) = mset [d \<leftarrow> dirs. valid tz d] - {#h#} \<and>
               length (sorted_value tz dirs) = length [d \<leftarrow> dirs. valid tz d] - 1 \<and>
               h \<notin> set (sorted_value tz dirs)"
    by blast
next
  assume "length [d \<leftarrow> dirs. valid tz d] < 2"
  with assms show "sorted_value tz dirs = []"
    by (rule sorted_value_few)
qed

subsection \<open>Instants of a 32-bit seconds counter\<close>

definition instant :: "zone \<Rightarrow> string \<Rightarrow> int option" where
  "instant tz x = (case strptime (os_path_split_tail x) of
       Inl _ \<Rightarrow> None
     | Inr tm \<Rightarrow> (case mktime tz tm of Inl _ \<Rightarrow> None | Inr t \<Rightarrow> Some t))"

definition in_32bit :: "zone \<Rightarrow> string \<Rightarrow> bool" where
  "in_32bit tz x = (case instant tz x of None \<Rightarrow> False | Some t \<Rightarrow> 0 \<le> t \<and> t < 2 ^ 32)"

lemma ln_pow32_pos: "0 < ln (2 ^ 32 :: real)"
  by (rule ln_gt_zero) simp

lemma TIME_SCALE_ge: "2 ^ 32 / ln (2 ^ 32) \<le> TIME_SCALE"
  unfolding TIME_SCALE_def by (rule le_of_int_ceiling)

lemma TIME_SCALE_pos: "0 < TIME_SCALE"
proof -
  have "0 < (2 ^ 32 :: real) / ln (2 ^ 32)"
    using ln_pow32_pos by simp
  then show ?thesis
    using TIME_SCALE_ge by (rule less_le_trans)
qed

lemma scaled_below_ln:
  assumes "t < (2 ^ 32 :: real)"
  shows "t / TIME_SCALE < ln (2 ^ 32)"
proof -
  have "2 ^ 32 \<le> TIME_SCALE * ln (2 ^ 32 :: real)"
    using TIME_SCALE_ge ln_pow32_pos by (simp add: pos_divide_le_eq)
  with assms have "t < ln (2 ^ 32) * TIME_SCALE"
    by (simp add: mult.commute)
  then show ?thesis
    using TIME_SCALE_pos by (simp add: pos_divide_less_eq)
qed

lemma exp_scaled_bound:
  assumes "t < (2 ^ 32 :: real)"
  shows "exp (t / TIME_SCALE) < 2 ^ 32"
proof -
  have "exp (t / TIME_SCALE) < exp (ln (2 ^ 32 :: real))"
    using scaled_below_ln [OF assms] by (simp only: exp_less_cancel_iff)
  then show ?thesis
    by simp
qed

lemma exp_scaled_mono: "exp (t / TIME_SCALE) < exp (t' / TIME_SCALE) \<longleftrightarrow> t < t'"
  using TIME_SCALE_pos by (simp add: divide_less_cancel)

lemma math_exp_scaled:
  assumes "t < (2 ^ 32 :: real)"
  shows "math_exp (t / TIME_SCALE) = Inr (exp (t / TIME_SCALE))"
proof -
  have "exp (t / TIME_SCALE) < 2 ^ 32"
    using assms by (rule exp_scaled_bound)
  also have "(2 ^ 32 :: real) < 2 ^ 1024"
    by simp
  finally show ?thesis
    by (simp add: math_exp_def)
qed

lemma timef_instant:
  "timef tz x = (case instant tz x of
      None \<Rightarrow> None
    | Some t \<Rightarrow> (case math_exp (real_of_int t / TIME_SCALE) of Inl _ \<Rightarrow> None | Inr v \<Rightarrow> Some v))"
  by (simp add: timef_def instant_def split: sum.splits)

lemma timef_in_32bit:
  assumes "in_32bit tz x"
  shows "timef tz x = Some (exp (real_of_int (the (instant tz x)) / TIME_SCALE))"
proof -
  from assms obtain t where t: "instant tz x = Some t" "0 \<le> t" "t < 2 ^ 32"
    by (auto simp: in_32bit_def split: option.splits)
  then have "real_of_int t < 2 ^ 32"
    by (metis of_int_less_numeral_power_cancel_iff)
  then show ?thesis
    by (simp add: timef_instant t(1) math_exp_scaled)
qed

lemma valid_in_32bit: "in_32bit tz x \<Longrightarrow> valid tz x"
  by (simp add: valid_def truthy_def timef_in_32bit)

lemma timef_None_invalid: "timef tz x = None \<Longrightarrow> \<not> valid tz x"
  by (simp add: valid_def truthy_def)

lemma instant_None: "instant tz x = None \<Longrightarrow> timef tz x = None"
  by (simp add: timef_instant)

lemma timef_at:
  assumes "instant tz x = Some t" and "0 \<le> t" and "t < 2 ^ 32"
  shows "timef tz x = Some (exp (real_of_int t / TIME_SCALE))"
  using timef_in_32bit [of tz x] assms by (simp add: in_32bit_def)

lemma timef_000000: "timef utc ''20101201-000000'' = Some (exp (1291161600 / TIME_SCALE))"
proof -
  have "instant utc ''20101201-000000'' = Some 1291161600"
    by code_simp
  then show ?thesis
    using timef_at by fastforce
qed

lemma timef_010000: "timef utc ''20101201-010000'' = Some (exp (1291165200 / TIME_SCALE))"
proof -
  have "instant utc ''20101201-010000'' = Some 1291165200"
    by code_simp
  then show ?thesis
    using timef_at by fastforce
qed

lemma timef_junk: "timef utc ''junk'' = None"
  by (rule instant_None) code_simp

lemma valid_Some: "timef tz x = Some (exp r) \<Longrightarrow> valid tz x"
  by (simp add: valid_def truthy_def)

theorem sorted_value_permutation_witness:
  "distinct [''20101201-010000'', ''junk'', ''20101201-000000''] \<and>
   2 \<le> length [d \<leftarrow> [''20101201-010000'', ''junk'', ''20101201-000000'']. valid utc d] \<and>
   sorted_value utc [''20101201-010000'', ''junk'', ''20101201-000000''] = [''20101201-000000''] \<and>
   distinct [''junk'', ''20101201-000000''] \<and>
   length [d \<leftarrow> [''junk'', ''20101201-000000'']. valid utc d] < 2 \<and>
   sorted_value utc [''junk'', ''20101201-000000''] = []"
proof -
  let ?a = "''20101201-000000''" and ?b = "''20101201-010000''"
  let ?A = "[?b, ''junk'', ?a]" and ?B = "[''junk'', ?a]"
  have va: "valid utc ?a" and vb: "valid utc ?b" and vj: "\<not> valid utc ''junk''"
    using timef_000000 timef_010000 timef_junk
    by (simp_all add: valid_def truthy_def)
  have dA: "distinct ?A" and dB: "distinct ?B"
    by simp_all
  have fA: "[d \<leftarrow> ?A. valid utc d] = [?b, ?a]" and fB: "[d \<leftarrow> ?B. valid utc d] = [?a]"
    using va vb vj by simp_all
  from sorted_value_permutation [OF dA, of utc] fA
  obtain h where h: "h \<in> set ?A" "valid utc h" "\<forall>x \<in> set ?A. valid utc x \<longrightarrow> timef utc x \<le> timef utc h"
    "mset (sorted_value utc ?A) = mset [?b, ?a] - {#h#}"
    by auto
  from h(3) vb have "timef utc ?b \<le> timef utc h"
    by simp
  then have "h \<noteq> ?a"
    using exp_scaled_mono [of 1291161600 1291165200]
    by (auto simp: timef_000000 timef_010000)
  with h(1,2) vj have "h = ?b"
    by auto
  with h(4) have "mset (sorted_value utc ?A) = {#?a#}"
    by simp
  then have "sorted_value utc ?A = [?a]"
    by (metis mset.simps(1) mset.simps(2) mset_single_iff_right)
  moreover from sorted_value_permutation [OF dB, of utc] fB have "sorted_value utc ?B = []"
    by simp
  ultimately show ?thesis
    using dA dB fA fB by simp
qed

subsection \<open>The oldest candidate is yielded last\<close>

lemma set_butlast_last: "xs \<noteq> [] \<Longrightarrow> set xs = insert (last xs) (set (butlast xs))"
  by (metis append_butlast_last_id list.simps(15) rotate1.simps(2) set_rotate1)

lemma valid_timef_the: "valid tz x \<Longrightarrow> timef tz x = Some (the (timef tz x))"
  by (auto simp: valid_def truthy_def split: option.splits)

lemma Some_prod_le: "(a :: real, l :: string) \<le> (b, x) \<Longrightarrow> (Some a, l) \<le> (Some b, x)"
  by (auto simp: less_eq_prod_def)

lemma sorted_value_last_least:
  assumes d: "distinct dirs" and two: "2 \<le> length [d \<leftarrow> dirs. valid tz d]"
  shows "sorted_value tz dirs \<noteq> [] \<and> last (sorted_value tz dirs) \<in> set dirs \<and>
         valid tz (last (sorted_value tz dirs)) \<and>
         (\<forall>x \<in> set dirs. valid tz x \<longrightarrow> (timef tz (last (sorted_value tz dirs)), last (sorted_value tz dirs)) \<le> (timef tz x, x))"
proof -
  let ?K = "valued tz dirs" and ?c = "initial_candidates tz dirs"
  let ?sw = "\<lambda>(xf, x). (x, the xf) :: string \<times> real"
  let ?l = "last (sorted_value tz dirs)"
  have lenK: "2 \<le> length ?K"
    using two by (simp only: length_valued)
  then have neK: "?K \<noteq> []"
    by auto
  have c: "?c = map ?sw (butlast ?K)"
    using d by (simp only: initial_candidates_eq map_butlast)
  have nec: "?c \<noteq> []"
    using lenK unfolding c by (simp flip: length_0_conv)
  have dc: "distinct (map fst ?c)"
    using distinct_snd_valued [OF d] d by (simp add: keys_initial_candidates distinct_butlast)
  from loop_last [OF dc nec] obtain v where
    lin: "(?l, v) \<in> set ?c" and least: "\<forall>p \<in> set ?c. (v, ?l) \<le> (snd p, fst p)"
    by (auto simp: sorted_value_eq_loop)
  from lin have "(?l, v) \<in> ?sw ` set (butlast ?K)"
    by (simp add: c)
  then obtain k where k: "k \<in> set (butlast ?K)" "(?l, v) = ?sw k"
    by blast
  from k(1) have kK: "k \<in> set ?K"
    by (rule in_set_butlastD)
  with k(2) have l: "?l \<in> set dirs" "valid tz ?l" "k = (timef tz ?l, ?l)" "v = the (timef tz ?l)"
    by (auto simp: set_valued)
  have tl: "timef tz ?l = Some v"
    using valid_timef_the [OF l(2)] l(4) by simp
  have "(timef tz ?l, ?l) \<le> (timef tz x, x)" if x: "x \<in> set dirs" "valid tz x" for x
  proof -
    from x have xK: "(timef tz x, x) \<in> set ?K"
      by (simp add: set_valued)
    show ?thesis
    proof (cases "(timef tz x, x) \<in> set (butlast ?K)")
      case True
      then have "?sw (timef tz x, x) \<in> set ?c"
        unfolding c by (simp only: set_map image_eqI)
      with least have "(v, ?l) \<le> (the (timef tz x), x)"
        by force
      then have "(Some v, ?l) \<le> (Some (the (timef tz x)), x)"
        by (rule Some_prod_le)
      then show ?thesis
        using valid_timef_the [OF x(2)] tl by simp
    next
      case False
      with xK set_butlast_last [OF neK] have "(timef tz x, x) = last ?K"
        by auto
      with sorted_le_last [OF sorted_valued kK] show ?thesis
        by (simp add: l(3))
    qed
  qed
  moreover have "sorted_value tz dirs \<noteq> []"
    using loop_nonempty [OF dc nec] by (simp add: sorted_value_eq_loop)
  ultimately show ?thesis
    using l(1,2) by blast
qed

text \<open>
  C10. For a list of distinct names with at least two valued ones, the last name that
  \<open>sorted_value\<close> yields is a valued name of lowest value: the oldest candidate
  is yielded after every other one.
\<close>

theorem sorted_value_oldest_last:
  assumes "distinct dirs" and "2 \<le> length [d \<leftarrow> dirs. valid tz d]"
  shows "sorted_value tz dirs \<noteq> [] \<and>
         last (sorted_value tz dirs) \<in> set dirs \<and> valid tz (last (sorted_value tz dirs)) \<and>
         last (sorted_value tz dirs) \<notin> set (butlast (sorted_value tz dirs)) \<and>
         (\<forall>x \<in> set dirs. valid tz x \<longrightarrow> timef tz (last (sorted_value tz dirs)) \<le> timef tz x)"
proof -
  have "distinct (sorted_value tz dirs)"
    using mset_sorted_value [OF assms(1)] distinct_snd_valued [OF assms(1)]
    by (metis distinct_butlast mset_eq_imp_distinct_iff)
  moreover have "sorted_value tz dirs \<noteq> []"
    using sorted_value_last_least [OF assms] by simp
  ultimately have "last (sorted_value tz dirs) \<notin> set (butlast (sorted_value tz dirs))"
    by (metis append_butlast_last_id distinct_append disjoint_iff list.set_intros(1))
  then show ?thesis
    using sorted_value_last_least [OF assms] by (blast dest: prod_le_fst)
qed


theorem sorted_value_oldest_last_witness:
  "distinct [''20101201-000000'', ''20101201-010000'', ''20101201-0100''] \<and>
   2 \<le> length [d \<leftarrow> [''20101201-000000'', ''20101201-010000'', ''20101201-0100'']. valid utc d] \<and>
   last (sorted_value utc [''20101201-000000'', ''20101201-010000'', ''20101201-0100'']) = ''20101201-000000''"
proof -
  let ?a = "''20101201-000000''" and ?b = "''20101201-010000''" and ?c = "''20101201-0100''"
  let ?A = "[?a, ?b, ?c]"
  have tc: "timef utc ?c = Some (exp (1291165200 / TIME_SCALE))"
  proof -
    have "instant utc ?c = Some 1291165200"
      by code_simp
    then show ?thesis
      using timef_at by fastforce
  qed
  have va: "valid utc ?a" and vb: "valid utc ?b" and vc: "valid utc ?c"
    using timef_000000 timef_010000 tc by (simp_all add: valid_def truthy_def)
  have dA: "distinct ?A"
    by simp
  have fA: "2 \<le> length [d \<leftarrow> ?A. valid utc d]"
    using va vb vc by simp
  from sorted_value_oldest_last [OF dA fA]
  have l: "last (sorted_value utc ?A) \<in> set ?A"
    and le: "timef utc (last (sorted_value utc ?A)) \<le> timef utc ?a"
    using va by simp_all
  have "\<not> timef utc ?b \<le> timef utc ?a" and "\<not> timef utc ?c \<le> timef utc ?a"
    using exp_scaled_mono [of 1291161600 1291165200]
    by (simp_all add: timef_000000 timef_010000 tc)
  with l le have "last (sorted_value utc ?A) = ?a"
    by auto
  with dA fA show ?thesis
    by simp
qed

subsection \<open>One round of the loop\<close>

lemma poles_nth:
  "poles xs = map (\<lambda>i. (xs ! i, xs ! Suc i)) [0..<length xs - 1]"
proof (induction xs rule: poles.induct)
  case (3 x y rest)
  have "[0..<Suc (length rest)] = 0 # map Suc [0..<length rest]"
    by (simp add: upt_conv_Cons map_Suc_upt del: upt_Suc)
  with 3 show ?case
    by (simp add: comp_def del: upt_Suc)
qed simp_all

lemma diffs_of_nth:
  "diffs_of remain =
     map (\<lambda>i. (fst (remain ! Suc i) - fst (remain ! i), snd (remain ! i), snd (remain ! Suc i)))
       [0..<length remain - 1]"
  by (simp add: diffs_of_def poles_nth case_prod_beta)

lemma select_least:
  assumes "1 < length c" and "x \<in> set (diffs_of (remain_of c))"
  shows "select c \<le> x"
proof -
  have "diffs_of (remain_of c) \<noteq> []"
    using assms(2) by auto
  then have "select c = Min (set (diffs_of (remain_of c)))"
    unfolding select_def by (rule min_list_Min)
  then show ?thesis
    using assms(2) by simp
qed

lemma triple_le: "(a :: real, b :: string, c :: string) \<le> (a', b', c') \<Longrightarrow> a < a' \<or> a = a' \<and> b \<le> b'"
  by (auto simp: less_eq_prod_def)

lemma sorted_map_fst: "sorted (xs :: (real \<times> string) list) \<Longrightarrow> sorted (map fst xs)"
  by (induction xs) (fastforce dest: prod_le_fst)+

lemma keys_delete: "fst ` set (AList.delete k c) = fst ` set c - {k}"
  by (auto simp: set_delete)

text \<open>
  C2. One round of the loop over a dictionary of candidates. With more than one
  candidate: \<open>remain\<close> holds the candidates in ascending order of value; \<open>diffs\<close> scores
  every adjacent pair with the value of the later minus the value of the earlier; the pair
  selected has the least score and, among equal scores, the least earlier name; its later
  member is yielded next and is the one candidate removed. With exactly one candidate,
  that candidate is yielded.
\<close>

theorem sorted_value_round:
  assumes "distinct (map fst candidates)"
  shows "(1 < length candidates \<longrightarrow>
           (case select candidates of (mdiff, mfrm, mto) \<Rightarrow>
              sorted (map fst (remain_of candidates)) \<and>
              set (remain_of candidates) = {(v, k). (k, v) \<in> set candidates} \<and>
              length (remain_of candidates) = length candidates \<and>
              diffs_of (remain_of candidates) =
                map (\<lambda>i. (fst (remain_of candidates ! Suc i) - fst (remain_of candidates ! i),
                          snd (remain_of candidates ! i), snd (remain_of candidates ! Suc i)))
                  [0..<length candidates - 1] \<and>
              (mdiff, mfrm, mto) \<in> set (diffs_of (remain_of candidates)) \<and>
              (\<forall>(d, frm, to) \<in> set (diffs_of (remain_of candidates)).
                 mdiff < d \<or> mdiff = d \<and> mfrm \<le> frm) \<and>
              mto \<in> fst ` set candidates \<and>
              fst ` set (AList.delete mto candidates) = fst ` set candidates - {mto} \<and>
              sorted_value_loop candidates = mto # sorted_value_loop (AList.delete mto candidates)))
       \<and> (length candidates = 1 \<longrightarrow> sorted_value_loop candidates = [fst (hd candidates)])"
proof (intro conjI impI)
  assume len: "1 < length candidates"
  obtain mdiff mfrm mto where sel: "select candidates = (mdiff, mfrm, mto)"
    by (cases "select candidates") auto
  have "sorted (map fst (remain_of candidates))"
    using sorted_remain_of [of candidates] by (rule sorted_map_fst)
  moreover have "set (remain_of candidates) = {(v, k). (k, v) \<in> set candidates}"
    by (auto simp: set_remain_of)
  moreover note length_remain_of [of candidates]
  moreover have "diffs_of (remain_of candidates) =
      map (\<lambda>i. (fst (remain_of candidates ! Suc i) - fst (remain_of candidates ! i),
                snd (remain_of candidates ! i), snd (remain_of candidates ! Suc i)))
        [0..<length candidates - 1]"
    using diffs_of_nth [of "remain_of candidates"] by (simp only: length_remain_of)
  moreover have "(mdiff, mfrm, mto) \<in> set (diffs_of (remain_of candidates))"
    using select_in_diffs [OF len] by (simp only: sel)
  moreover have "\<forall>(d, frm, to) \<in> set (diffs_of (remain_of candidates)).
      mdiff < d \<or> mdiff = d \<and> mfrm \<le> frm"
    using select_least [OF len] by (auto simp only: sel dest: triple_le)
  moreover have "mto \<in> fst ` set candidates"
    using len sel by (rule select_mto_key)
  moreover note keys_delete [of mto candidates] loop_step [OF len sel]
  ultimately show "case select candidates of (mdiff, mfrm, mto) \<Rightarrow>
              sorted (map fst (remain_of candidates)) \<and>
              set (remain_of candidates) = {(v, k). (k, v) \<in> set candidates} \<and>
              length (remain_of candidates) = length candidates \<and>
              diffs_of (remain_of candidates) =
                map (\<lambda>i. (fst (remain_of candidates ! Suc i) - fst (remain_of candidates ! i),
                          snd (remain_of candidates ! i), snd (remain_of candidates ! Suc i)))
                  [0..<length candidates - 1] \<and>
              (mdiff, mfrm, mto) \<in> set (diffs_of (remain_of candidates)) \<and>
              (\<forall>(d, frm, to) \<in> set (diffs_of (remain_of candidates)).
                 mdiff < d \<or> mdiff = d \<and> mfrm \<le> frm) \<and>
              mto \<in> fst ` set candidates \<and>
              fst ` set (AList.delete mto candidates) = fst ` set candidates - {mto} \<and>
              sorted_value_loop candidates = mto # sorted_value_loop (AList.delete mto candidates)"
    by (simp only: sel prod.case simp_thms)
next
  assume "length candidates = 1"
  then obtain p where "candidates = [p]"
    by (cases candidates) auto
  then show "sorted_value_loop candidates = [fst (hd candidates)]"
    by (simp add: loop_small)
qed


theorem sorted_value_round_witness:
  "distinct (map fst [(''20101201-020000'', 3 :: real), (''20101201-000000'', 1), (''20101201-010000'', 2)]) \<and>
   1 < length [(''20101201-020000'', 3 :: real), (''20101201-000000'', 1), (''20101201-010000'', 2)] \<and>
   select [(''20101201-020000'', 3), (''20101201-000000'', 1), (''20101201-010000'', 2)]
     = (1, ''20101201-000000'', ''20101201-010000'') \<and>
   sorted_value_loop [(''20101201-020000'', 3), (''20101201-000000'', 1), (''20101201-010000'', 2)]
     = ''20101201-010000'' #
       sorted_value_loop [(''20101201-020000'', 3), (''20101201-000000'', 1)] \<and>
   length [(''20101201-000000'', 1 :: real)] = 1 \<and>
   sorted_value_loop [(''20101201-000000'', 1)] = [''20101201-000000'']"
proof -
  let ?C = "[(''20101201-020000'', 3 :: real), (''20101201-000000'', 1), (''20101201-010000'', 2)]"
  have d: "distinct (map fst ?C)"
    by simp
  have sel: "select ?C = (1, ''20101201-000000'', ''20101201-010000'')"
    by code_simp
  have del: "AList.delete ''20101201-010000'' ?C = [(''20101201-020000'', 3), (''20101201-000000'', 1)]"
    by simp
  from sorted_value_round [OF d] sel
  have "sorted_value_loop ?C = ''20101201-010000'' # sorted_value_loop (AList.delete ''20101201-010000'' ?C)"
    by simp
  moreover from sorted_value_round [of "[(''20101201-000000'', 1)]"]
  have "sorted_value_loop [(''20101201-000000'', 1)] = [''20101201-000000'']"
    by simp
  ultimately show ?thesis
    using sel by (simp only: del) simp
qed

subsection \<open>The range of the values\<close>

text \<open>
  C9. \<open>TIME_SCALE\<close> is \<open>ceil(2^32 / ln(2^32))\<close>. For an instant \<open>t\<close> of a 32-bit
  seconds counter, \<open>math.exp(t / TIME_SCALE)\<close> does not overflow, its result lies
  between 1 and \<open>2^32\<close>, and the result grows strictly with the instant.
\<close>

theorem time_scale_safe_range:
  assumes "0 \<le> t" and "t < 2 ^ 32"
  shows "TIME_SCALE = of_int \<lceil>2 ^ 32 / ln (2 ^ 32) :: real\<rceil> \<and>
         math_exp (real_of_int t / TIME_SCALE) = Inr (exp (real_of_int t / TIME_SCALE)) \<and>
         1 \<le> exp (real_of_int t / TIME_SCALE) \<and>
         exp (real_of_int t / TIME_SCALE) < 2 ^ 32 \<and>
         (\<forall>t'. t < t' \<longrightarrow>
            exp (real_of_int t / TIME_SCALE) < exp (real_of_int t' / TIME_SCALE))"
proof -
  have r: "real_of_int t < 2 ^ 32"
    using assms(2) by (metis of_int_less_numeral_power_cancel_iff)
  have "0 \<le> real_of_int t / TIME_SCALE"
    using assms(1) TIME_SCALE_pos by simp
  then have "1 \<le> exp (real_of_int t / TIME_SCALE)"
    by simp
  moreover have "\<forall>t'. t < t' \<longrightarrow>
      exp (real_of_int t / TIME_SCALE) < exp (real_of_int t' / TIME_SCALE)"
    by (simp only: exp_scaled_mono of_int_less_iff simp_thms)
  ultimately show ?thesis
    using math_exp_scaled [OF r] exp_scaled_bound [OF r] by (simp add: TIME_SCALE_def)
qed

theorem time_scale_safe_range_witness:
  "(0 :: int) \<le> 4294967295 \<and> (4294967295 :: int) < 2 ^ 32 \<and>
   math_exp (real_of_int 4294967295 / TIME_SCALE) = Inr (exp (real_of_int 4294967295 / TIME_SCALE)) \<and>
   exp (real_of_int 4294967295 / TIME_SCALE) < 2 ^ 32 \<and>
   (4294967295 :: int) < 4294967296 \<and>
   exp (real_of_int 4294967295 / TIME_SCALE) < exp (real_of_int 4294967296 / TIME_SCALE)"
proof -
  have h: "(0 :: int) \<le> 4294967295" "(4294967295 :: int) < 2 ^ 32"
    "(4294967295 :: int) < 4294967296"
    by simp_all
  from time_scale_safe_range [OF h(1,2)] h show ?thesis
    by blast
qed

section \<open>Properties of the controller\<close>

lemma dict_fold_keys:
  "distinct (map fst acc) \<Longrightarrow>
     distinct (map fst (fold (\<lambda>(k, v). AList.update k v) items acc)) \<and>
     fst ` set (fold (\<lambda>(k, v). AList.update k v) items acc) = fst ` set acc \<union> fst ` set items"
proof (induction items arbitrary: acc)
  case Nil
  then show ?case by simp
next
  case (Cons p items)
  obtain k v where p: "p = (k, v)"
    by force
  have "distinct (map fst (AList.update k v acc))"
    using Cons.prems by (simp add: distinct_update)
  from Cons.IH [OF this] show ?case
    by (auto simp: p dom_update)
qed

lemma distinct_dict: "distinct (map fst (dict items))"
  unfolding dict_def using dict_fold_keys [of "[]" items] by simp

lemma keys_dict: "fst ` set (dict items) = fst ` set items"
  unfolding dict_def using dict_fold_keys [of "[]" items] by simp

lemma keys_initial_candidates_valid:
  "fst ` set (initial_candidates tz dirs) \<subseteq> {d \<in> set dirs. valid tz d}"
proof -
  have "fst ` set (initial_candidates tz dirs)
      \<subseteq> fst ` set [(x, the xf). (xf, x) \<leftarrow> sort (map (\<lambda>y. (timef tz y, y)) dirs), truthy xf]"
    unfolding initial_candidates_def keys_dict all_but_last_butlast
    by (intro image_mono) (auto dest: in_set_butlastD)
  also have "\<dots> \<subseteq> {d \<in> set dirs. valid tz d}"
    by (auto simp: valid_def)
  finally show ?thesis .
qed

lemma set_sorted_value: "set (sorted_value tz dirs) \<subseteq> {d \<in> set dirs. valid tz d}"
proof -
  have "mset (sorted_value tz dirs) = mset (map fst (initial_candidates tz dirs))"
    unfolding sorted_value_eq_loop
    by (rule loop_mset) (simp add: initial_candidates_def distinct_dict)
  then have "set (sorted_value tz dirs) = fst ` set (initial_candidates tz dirs)"
    by (metis list.set_map mset_eq_setD)
  then show ?thesis
    using keys_initial_candidates_valid [of tz dirs] by simp
qed

lemma first_Some_in: "first xs = Some x \<Longrightarrow> x \<in> set xs"
  by (auto simp: first_def split: list.splits)

lemma sort_sort: "sort (sort xs) = sort (xs :: string list)"
  by (simp add: sorted_sort_id)

lemma body_Delete:
  assumes "cleandir_body tz ops tg st s = Delete st' d"
  shows "d \<in> set (sorted_value tz (sort (listdir ops s)))"
    and "listdir ops s \<noteq> []"
    and "sort (listdir ops s) \<noteq> last_dirs st"
    and "last_dirs st' = sort (listdir ops s)"
    and "target_removed_var st' = map_option (\<lambda>r. r - 1) (target_removed_var st)"
    and "\<And>k. keep_backups tg = Some k \<Longrightarrow> k < int (length (listdir ops s))"
    and "\<And>r. target_removed_var st = Some r \<Longrightarrow> 0 < r"
  using assms
  by (auto simp: cleandir_body_def Let_def sort_sort dest: first_Some_in
      split: if_splits option.splits prod.splits)

lemma body_Delete_valid:
  "cleandir_body tz ops tg st s = Delete st' d \<Longrightarrow> valid tz d \<and> d \<in> set (listdir ops s)"
  using body_Delete(1) [of tz ops tg st s st' d] set_sorted_value [of tz "sort (listdir ops s)"]
  by auto

lemma removed_valid:
  "x \<in> set (removed (cleandir_loop tz n ops tg st s acc)) \<Longrightarrow> x \<in> set acc \<or> valid tz x"
proof (induction n arbitrary: st s acc)
  case 0
  then show ?case by simp
next
  case (Suc n)
  show ?case
  proof (cases "cleandir_body tz ops tg st s")
    case (Delete st' d)
    show ?thesis
    proof (cases "unsnap ops s d")
      case (Inl e)
      with Delete Suc.prems show ?thesis by simp
    next
      case (Inr s')
      with Delete Suc.prems
      have "x \<in> set (removed (cleandir_loop tz n ops tg st' s' (acc @ [d])))"
        by simp
      from Suc.IH [OF this] body_Delete_valid [OF Delete] show ?thesis
        by auto
    qed
  qed (use Suc.prems in simp_all)
qed

lemma removed_bound:
  "int (length (removed (cleandir_loop tz n ops tg st s acc)))
     \<le> int (length acc) + (case target_removed_var st of None \<Rightarrow> int n | Some r \<Rightarrow> max 0 r)"
proof (induction n arbitrary: st s acc)
  case 0
  then show ?case by (simp split: option.splits)
next
  case (Suc n)
  show ?case
  proof (cases "cleandir_body tz ops tg st s")
    case (Delete st' d)
    show ?thesis
    proof (cases "unsnap ops s d")
      case (Inl e)
      with Delete show ?thesis by (simp split: option.splits)
    next
      case (Inr s')
      have "int (length (removed (cleandir_loop tz n ops tg st' s' (acc @ [d]))))
          \<le> int (length (acc @ [d])) +
             (case target_removed_var st' of None \<Rightarrow> int n | Some r \<Rightarrow> max 0 r)"
        by (rule Suc.IH)
      then show ?thesis
        using Delete Inr body_Delete(5,7) [OF Delete]
        by (cases "target_removed_var st") (auto split: option.splits)
    qed
  qed (simp_all split: option.splits)
qed

lemma strptime_fails: "strptime (os_path_split_tail x) = Inl e \<Longrightarrow> timef tz x = None"
  by (simp add: timef_def)

subsection \<open>The checks at the head of an iteration\<close>

lemma sort_eq_Nil: "sort xs = [] \<longleftrightarrow> xs = ([] :: string list)"
  by (metis length_0_conv length_sort)

lemma body_empty:
  "listdir ops s = [] \<Longrightarrow> cleandir_body tz ops tg st s = Raise No_more_directories_to_clean"
  by (simp add: cleandir_body_def)

lemma body_unchanged:
  "listdir ops s \<noteq> [] \<Longrightarrow> last_dirs st = sort (listdir ops s) \<Longrightarrow>
     cleandir_body tz ops tg st s = Raise No_directories_removed"
  by (simp add: cleandir_body_def sort_sort sort_eq_Nil Let_def)

lemma body_keep:
  "listdir ops s \<noteq> [] \<Longrightarrow> sort (listdir ops s) \<noteq> last_dirs st \<Longrightarrow>
   keep_backups tg = Some k \<Longrightarrow> int (length (listdir ops s)) \<le> k \<Longrightarrow>
     cleandir_body tz ops tg st s = Break Reached_keep_backups"
  by (simp add: cleandir_body_def sort_sort sort_eq_Nil Let_def)

lemma body_max_removed:
  "listdir ops s \<noteq> [] \<Longrightarrow> sort (listdir ops s) \<noteq> last_dirs st \<Longrightarrow>
   (\<forall>k. keep_backups tg = Some k \<longrightarrow> k < int (length (listdir ops s))) \<Longrightarrow>
   target_removed_var st = Some r \<Longrightarrow> r \<le> 0 \<Longrightarrow>
     cleandir_body tz ops tg st s = Break Reached_max_removed"
  by (auto simp: cleandir_body_def sort_sort sort_eq_Nil Let_def split: option.splits)


lemma body_no_Delete_removed:
  "target_removed_var st = Some r \<Longrightarrow> r \<le> 0 \<Longrightarrow> cleandir_body tz ops tg st s \<noteq> Delete st' d"
  using body_Delete(7) [of tz ops tg st s st' d r] by auto

lemma loop_no_Delete:
  assumes "\<And>st' d. cleandir_body tz ops tg st s \<noteq> Delete st' d"
  shows "backend (cleandir_loop tz n ops tg st s acc) = s \<and>
         removed (cleandir_loop tz n ops tg st s acc) = acc"
proof (cases n)
  case 0
  then show ?thesis by simp
next
  case (Suc m)
  show ?thesis
  proof (cases "cleandir_body tz ops tg st s")
    case (Delete st' d)
    with assms show ?thesis
      by blast
  qed (simp_all add: Suc)
qed

lemma initial_last_dirs [simp]: "last_dirs (initial_state tg) = []"
  by (simp add: initial_state_def)

lemma initial_counter [simp]: "target_removed_var (initial_state tg) = target_removed tg"
  by (simp add: initial_state_def)

lemma first_run_keep:
  assumes "keep_backups tg = Some k" and "int (length (listdir ops s)) \<le> k"
  shows "cleandir tz (Suc n) ops tg s =
     \<lparr>outcome = (if listdir ops s = [] then Fatal No_more_directories_to_clean
                  else Clean Reached_keep_backups),
      backend = s, removed = []\<rparr>"
proof (cases "listdir ops s = []")
  case True
  then show ?thesis
    by (simp add: cleandir_def body_empty)
next
  case False
  then have "sort (listdir ops s) \<noteq> last_dirs (initial_state tg)"
    by (simp add: sort_eq_Nil)
  with False assms show ?thesis
    by (simp add: cleandir_def body_keep)
qed

text \<open>\<open>FakeOperations\<close> removes exactly the name it is given.\<close>

lemma fake_unsnap_length:
  assumes "distinct (map fst (fake_dirs f))" and "fake_unsnap f d = Inr f'"
  shows "Suc (length (fake_dirs f')) = length (fake_dirs f) \<and> distinct (map fst (fake_dirs f'))"
proof -
  from assms(2) obtain v where v: "map_of (fake_dirs f) d = Some v"
    and f': "fake_dirs f' = AList.delete d (fake_dirs f)"
    by (auto simp: fake_unsnap_def split: option.splits)
  from v have "d \<in> fst ` set (fake_dirs f)"
    by (metis domI dom_map_of_conv_image_fst)
  then have "add_mset d (mset (map fst (fake_dirs f'))) = mset (map fst (fake_dirs f))"
    unfolding f' using assms(1) by (intro mset_keys_delete)
  then have "Suc (length (fake_dirs f')) = length (fake_dirs f)"
    by (metis length_map size_add_mset size_mset)
  then show ?thesis
    using assms(1) by (simp add: f' distinct_delete)
qed


subsection \<open>The planner on two and on three snapshots\<close>

lemma Some_pair_less:
  "va < vb \<Longrightarrow> (Some (va :: real), a :: string) \<le> (Some vb, b)"
  by (simp add: less_eq_prod_def)

lemma pair_less: "va < vb \<Longrightarrow> (va :: real, a :: string) \<le> (vb, b)"
  by (simp add: less_eq_prod_def)

lemma sorted_value_2:
  assumes "timef tz a = Some va" and "timef tz b = Some vb" and "va < vb" and "va \<noteq> 0" and "vb \<noteq> 0"
  shows "sorted_value tz [a, b] = [a]"
proof -
  have ab: "a \<noteq> b"
    using assms by auto
  have v: "valid tz a" "valid tz b"
    using assms by (simp_all add: valid_def truthy_def)
  have "sorted [(timef tz a, a), (timef tz b, b)]"
    using assms by (simp add: Some_pair_less)
  then have "valued tz [a, b] = [(timef tz a, a), (timef tz b, b)]"
    using v by (simp add: valued_def sorted_sort_id del: sort_key_simps)
  then have "initial_candidates tz [a, b] = [(a, va)]"
    using ab assms by (simp add: initial_candidates_eq)
  then show ?thesis
    by (simp add: sorted_value_eq_loop loop_small)
qed

lemma sorted_value_3:
  assumes "timef tz a = Some va" and "timef tz b = Some vb" and "timef tz c = Some vc"
    and "va < vb" and "vb < vc" and "va \<noteq> 0" and "vb \<noteq> 0" and "vc \<noteq> 0"
  shows "sorted_value tz [a, b, c] = [b, a]"
proof -
  have d: "distinct [a, b, c]"
    using assms by auto
  have v: "valid tz a" "valid tz b" "valid tz c"
    using assms by (simp_all add: valid_def truthy_def)
  have "sorted [(timef tz a, a), (timef tz b, b), (timef tz c, c)]"
    using assms by (simp add: Some_pair_less)
  then have "valued tz [a, b, c] = [(timef tz a, a), (timef tz b, b), (timef tz c, c)]"
    using v by (simp add: valued_def sorted_sort_id del: sort_key_simps)
  then have c: "initial_candidates tz [a, b, c] = [(a, va), (b, vb)]"
    using d assms by (simp add: initial_candidates_eq)
  have "sorted [(va, a), (vb, b)]"
    using assms by (simp add: pair_less)
  then have "remain_of [(a, va), (b, vb)] = [(va, a), (vb, b)]"
    by (simp add: remain_of_def sorted_sort_id del: sort_key_simps)
  then have sel: "select [(a, va), (b, vb)] = (vb - va, a, b)"
    by (simp add: select_def diffs_of_def)
  have "a \<noteq> b"
    using d by simp
  then have "sorted_value_loop [(a, va), (b, vb)] = [b, a]"
    using loop_step [OF _ sel] by (simp add: loop_small)
  then show ?thesis
    by (simp add: sorted_value_eq_loop c)
qed

lemma scaled_less: "a / TIME_SCALE < b / TIME_SCALE \<longleftrightarrow> a < b"
  using TIME_SCALE_pos by (simp add: divide_less_cancel)

lemma timef_020000: "timef utc ''20101201-020000'' = Some (exp (1291168800 / TIME_SCALE))"
proof -
  have "instant utc ''20101201-020000'' = Some 1291168800"
    by code_simp
  then show ?thesis
    using timef_at by fastforce
qed

lemma sorted_value_two_names:
  "sorted_value utc [''20101201-000000'', ''20101201-010000''] = [''20101201-000000'']"
  by (rule sorted_value_2 [OF timef_000000 timef_010000]) (simp_all add: scaled_less)

lemma sorted_value_three_names:
  "sorted_value utc [''20101201-000000'', ''20101201-010000'', ''20101201-020000'']
     = [''20101201-010000'', ''20101201-000000'']"
  by (rule sorted_value_3 [OF timef_000000 timef_010000 timef_020000])
    (simp_all add: scaled_less)

lemma sort_three_names:
  "sort [''20101201-000000'', ''20101201-010000'', ''20101201-020000'']
     = [''20101201-000000'', ''20101201-010000'', ''20101201-020000'']"
  by code_simp

lemma sort_two_names:
  "sort [''20101201-000000'', ''20101201-010000''] = [''20101201-000000'', ''20101201-010000'']"
  by code_simp






subsection \<open>The cap on the removals of a run\<close>

lemma removed_at_most:
  assumes "target_removed tg = Some N" and "0 \<le> N"
  shows "int (length (removed (cleandir tz n ops tg s))) \<le> N"
  using removed_bound [of tz n ops tg "initial_state tg" s "[]"] assms
  by (simp add: cleandir_def)

lemma sorted_value_nonempty:
  assumes "distinct dirs" and "2 \<le> length [d \<leftarrow> dirs. valid tz d]"
  shows "\<exists>d rest. sorted_value tz dirs = d # rest \<and> d \<in> set dirs"
proof -
  from sorted_value_last_least [OF assms] have "sorted_value tz dirs \<noteq> []"
    by simp
  then obtain d rest where dr: "sorted_value tz dirs = d # rest"
    by (cases "sorted_value tz dirs") auto
  then have "d \<in> set dirs"
    using set_sorted_value [of tz dirs] by auto
  with dr show ?thesis
    by blast
qed

lemma fake_unsnap_key:
  "d \<in> fst ` set (fake_dirs f) \<Longrightarrow> \<exists>f'. fake_unsnap f d = Inr f'"
  by (cases "map_of (fake_dirs f) d")
    (auto simp: fake_unsnap_def map_of_eq_None_iff)

lemma vote_backups_above:
  "t < dirs_len \<Longrightarrow> fst (vote_backups (Some t) dirs_len w) = Some True"
  by (cases w) (simp add: vote_backups_def)

lemma body_Delete_intro:
  assumes ne: "listdir ops s \<noteq> []" and ch: "sort (listdir ops s) \<noteq> last_dirs st"
    and kb: "\<forall>k. keep_backups tg = Some k \<longrightarrow> k < int (length (listdir ops s))"
    and tr: "\<forall>r. target_removed_var st = Some r \<longrightarrow> 0 < r"
    and tb: "target_backups tg = Some t" and above: "t < int (length (listdir ops s))"
    and x: "sorted_value tz (sort (listdir ops s)) = x # rest"
  shows "\<exists>st'. cleandir_body tz ops tg st s = Delete st' x \<and>
           target_removed_var st' = map_option (\<lambda>r. r - 1) (target_removed_var st) \<and>
           last_dirs st' = sort (listdir ops s)"
proof -
  obtain d1 w1 where v1: "vote_freespace (target_freespace tg) (freespace ops s)
      (None, was_above_target_freespace st) = (d1, w1)"
    by force
  obtain d2 w2 where v2: "vote_backups (Some t) (int (length (listdir ops s)))
      (d1, was_above_target_backups st) = (d2, w2)"
    by force
  have d2: "d2 = Some True"
    using vote_backups_above [OF above, of "(d1, was_above_target_backups st)"] v2 by simp
  have k: "\<not> (case keep_backups tg of None \<Rightarrow> False
      | Some k \<Rightarrow> int (length (sort (listdir ops s))) \<le> k)"
    using kb by (auto split: option.splits)
  have r: "\<not> (case target_removed_var st of None \<Rightarrow> False | Some r \<Rightarrow> r \<le> 0)"
    using tr by (auto split: option.splits)
  show ?thesis
    using ne ch k r
    by (simp add: cleandir_body_def Let_def sort_sort sort_eq_Nil tb v1 v2 d2 x first_def
        del: sort_key_simps)
qed

text \<open>The scenario: nine valued snapshots, \<open>target_removed = 1\<close>,
  \<open>target_backups = 0\<close>, and a floor below nine.\<close>

lemma scenario_one_removal:
  assumes tr: "target_removed tg = Some 1" and tb: "target_backups tg = Some 0"
    and kb: "\<forall>k. keep_backups tg = Some k \<longrightarrow> k < 9"
    and d: "distinct (map fst (fake_dirs f))" and len: "length (fake_dirs f) = 9"
    and v: "\<forall>x \<in> fst ` set (fake_dirs f). valid tz x"
  shows "length (removed (cleandir tz (Suc (Suc n)) FakeOperations tg f)) = 1 \<and>
         outcome (cleandir tz (Suc (Suc n)) FakeOperations tg f) \<in> range Clean"
proof -
  let ?dirs = "sort (map fst (fake_dirs f))"
  have dd: "distinct ?dirs"
    using d by simp
  have "[x \<leftarrow> ?dirs. valid tz x] = ?dirs"
    using v by (simp add: filter_id_conv del: sort_key_simps)
  then have "length [x \<leftarrow> ?dirs. valid tz x] = 9"
    using len by simp
  then have two: "2 \<le> length [x \<leftarrow> ?dirs. valid tz x]"
    by simp
  from sorted_value_nonempty [OF dd two] obtain x rest
    where x: "sorted_value tz ?dirs = x # rest" "x \<in> set ?dirs"
    by blast
  have ne: "map fst (fake_dirs f) \<noteq> []"
    using len by auto
  obtain st' where b1: "cleandir_body tz FakeOperations tg (initial_state tg) f = Delete st' x"
    and st': "target_removed_var st' = Some 0" "last_dirs st' = ?dirs"
    using body_Delete_intro [of FakeOperations f "initial_state tg" tg 0 tz x rest]
      tr tb kb len ne x(1)
    by (auto simp: FakeOperations_def sort_eq_Nil simp del: sort_key_simps)
  from x(2) obtain f' where f': "fake_unsnap f x = Inr f'"
    using fake_unsnap_key [of x f] by auto
  from fake_unsnap_length [OF d f'] len have len': "length (fake_dirs f') = 8"
    by simp
  have body2: "\<And>st'' y. cleandir_body tz FakeOperations tg st' f' \<noteq> Delete st'' y"
    using st'(1) by (rule body_no_Delete_removed) simp
  have "length (sort (map fst (fake_dirs f'))) \<noteq> length (last_dirs st')"
    using len len' st'(2) by simp
  then have ch: "sort (map fst (fake_dirs f')) \<noteq> last_dirs st'"
    by metis
  have ne': "map fst (fake_dirs f') \<noteq> []"
    using len' by auto
  have b2: "cleandir_body tz FakeOperations tg st' f' \<in> range Break"
    using ch ne' st'(1) len'
    by (auto simp: cleandir_body_def FakeOperations_def Let_def sort_sort sort_eq_Nil
        split: option.splits simp del: sort_key_simps)
  then obtain r where r: "cleandir_body tz FakeOperations tg st' f' = Break r"
    by auto
  have "cleandir tz (Suc (Suc n)) FakeOperations tg f
      = \<lparr>outcome = Clean r, backend = f', removed = [x]\<rparr>"
    using b1 f' r by (simp add: cleandir_def FakeOperations_def)
  then show ?thesis
    by simp
qed

lemma test_operations_valid: "\<forall>x \<in> fst ` set (fake_dirs test_operations). valid utc x"
proof -
  have "list_all (in_32bit utc) (map fst (fake_dirs test_operations))"
    by code_simp
  then show ?thesis
    by (auto simp: list_all_iff intro: valid_in_32bit)
qed

lemma test_operations_dirs:
  "distinct (map fst (fake_dirs test_operations))" "length (fake_dirs test_operations) = 9"
  by (simp_all add: test_operations_def)

text \<open>
  C4, as stated, fails in two places. With \<open>target_removed = 0\<close> and no snapshot, the
  first iteration, in which the counter is zero, ends with the fatal failure, not with a
  clean exit. With \<open>target_removed = 1\<close>, \<open>target_backups = 0\<close> and the nine snapshots
  of the built-in test, a floor of nine leaves no removal at all.
\<close>

theorem target_removed_counterexample:
  "target_removed_var (initial_state
       \<lparr>keep_backups = None, target_freespace = None, target_backups = Some 0,
        target_removed = Some 0\<rparr>) = Some 0 \<and>
   outcome (cleandir utc 1 FakeOperations
       \<lparr>keep_backups = None, target_freespace = None, target_backups = Some 0,
        target_removed = Some 0\<rparr>
       \<lparr>fake_dirs = [], fake_space = 0\<rparr>) = Fatal No_more_directories_to_clean \<and>
   outcome (cleandir utc 1 FakeOperations
       \<lparr>keep_backups = None, target_freespace = None, target_backups = Some 0,
        target_removed = Some 0\<rparr>
       \<lparr>fake_dirs = [], fake_space = 0\<rparr>) \<notin> range Clean \<and>
   length (fake_dirs test_operations) = 9 \<and>
   cleandir utc 2 FakeOperations
       \<lparr>keep_backups = Some 9, target_freespace = None, target_backups = Some 0,
        target_removed = Some 1\<rparr>
       test_operations
     = \<lparr>outcome = Clean Reached_keep_backups, backend = test_operations, removed = []\<rparr>"
proof -
  let ?tg = "\<lparr>keep_backups = Some 9, target_freespace = None, target_backups = Some 0,
    target_removed = Some 1\<rparr>"
  have "cleandir utc (Suc 1) FakeOperations ?tg test_operations
      = \<lparr>outcome = (if listdir FakeOperations test_operations = []
                     then Fatal No_more_directories_to_clean else Clean Reached_keep_backups),
         backend = test_operations, removed = []\<rparr>"
    by (rule first_run_keep [where k = 9]) (simp_all add: FakeOperations_def test_operations_def)
  moreover have "listdir FakeOperations test_operations \<noteq> []"
    by (simp add: FakeOperations_def test_operations_def)
  ultimately have "cleandir utc 2 FakeOperations ?tg test_operations
      = \<lparr>outcome = Clean Reached_keep_backups, backend = test_operations, removed = []\<rparr>"
    by (simp only: if_False) (simp only: numeral_2_eq_2 One_nat_def)
  then show ?thesis
    by (simp add: cleandir_def cleandir_body_def FakeOperations_def image_iff
        test_operations_dirs)
qed

text \<open>
  C4, amended. With \<open>target_removed = N\<close>, \<open>N\<close> not negative, a run removes at most
  \<open>N\<close> snapshots. In an iteration where the counter has reached zero nothing is
  removed, and the stop is the clean exit of the counter when the listing is not empty,
  has changed and is above the floor. An iteration that goes on to remove a snapshot
  decrements the counter once. With \<open>target_removed = 1\<close>, \<open>target_backups = 0\<close>, nine
  valued snapshots in \<open>FakeOperations\<close> and a floor that is absent or below nine, the run
  ends cleanly after exactly one removal.
\<close>

theorem target_removed_bound:
  assumes "target_removed tg = Some N" and "0 \<le> N"
  shows "int (length (removed (cleandir tz n ops tg s))) \<le> N
       \<and> (\<forall>r. target_removed_var st = Some r \<and> r \<le> 0 \<longrightarrow>
             removed (cleandir_loop tz n ops tg st s acc) = acc \<and>
             backend (cleandir_loop tz n ops tg st s acc) = s)
       \<and> (\<forall>r. target_removed_var st = Some r \<and> r \<le> 0 \<and>
              listdir ops s \<noteq> [] \<and> sort (listdir ops s) \<noteq> last_dirs st \<and>
              (\<forall>k. keep_backups tg = Some k \<longrightarrow> k < int (length (listdir ops s))) \<longrightarrow>
             cleandir_loop tz (Suc n) ops tg st s acc =
               \<lparr>outcome = Clean Reached_max_removed, backend = s, removed = acc\<rparr>)
       \<and> (\<forall>st' d. cleandir_body tz ops tg st s = Delete st' d \<longrightarrow>
             target_removed_var st' = map_option (\<lambda>r. r - 1) (target_removed_var st))
       \<and> (N = 1 \<and> target_backups tg = Some 0 \<and> (\<forall>k. keep_backups tg = Some k \<longrightarrow> k < 9) \<and>
            distinct (map fst (fake_dirs f)) \<and> length (fake_dirs f) = 9 \<and>
            (\<forall>x \<in> fst ` set (fake_dirs f). valid tz x) \<longrightarrow>
           length (removed (cleandir tz (Suc (Suc n)) FakeOperations tg f)) = 1 \<and>
           outcome (cleandir tz (Suc (Suc n)) FakeOperations tg f) \<in> range Clean)"
proof (intro conjI allI impI)
  show "int (length (removed (cleandir tz n ops tg s))) \<le> N"
    using assms by (rule removed_at_most)
next
  fix r
  assume r: "target_removed_var st = Some r \<and> r \<le> 0"
  then have "cleandir_body tz ops tg st s \<noteq> Delete st' d" for st' d
    using body_no_Delete_removed [of st r tz ops tg s st' d] by simp
  then have *: "backend (cleandir_loop tz n ops tg st s acc) = s \<and>
      removed (cleandir_loop tz n ops tg st s acc) = acc"
    by (rule loop_no_Delete)
  from * show "removed (cleandir_loop tz n ops tg st s acc) = acc" ..
  from * show "backend (cleandir_loop tz n ops tg st s acc) = s" ..
next
  fix r
  assume "target_removed_var st = Some r \<and> r \<le> 0 \<and>
    listdir ops s \<noteq> [] \<and> sort (listdir ops s) \<noteq> last_dirs st \<and>
    (\<forall>k. keep_backups tg = Some k \<longrightarrow> k < int (length (listdir ops s)))"
  then have "cleandir_body tz ops tg st s = Break Reached_max_removed"
    using body_max_removed [of ops s st tg r] by simp
  then show "cleandir_loop tz (Suc n) ops tg st s acc =
      \<lparr>outcome = Clean Reached_max_removed, backend = s, removed = acc\<rparr>"
    by simp
next
  fix st' d
  assume "cleandir_body tz ops tg st s = Delete st' d"
  then show "target_removed_var st' = map_option (\<lambda>r. r - 1) (target_removed_var st)"
    by (rule body_Delete(5))
next
  assume a: "N = 1 \<and> target_backups tg = Some 0 \<and> (\<forall>k. keep_backups tg = Some k \<longrightarrow> k < 9) \<and>
    distinct (map fst (fake_dirs f)) \<and> length (fake_dirs f) = 9 \<and>
    (\<forall>x \<in> fst ` set (fake_dirs f). valid tz x)"
  with assms(1) have tr: "target_removed tg = Some 1"
    by simp
  from a have *: "length (removed (cleandir tz (Suc (Suc n)) FakeOperations tg f)) = 1 \<and>
      outcome (cleandir tz (Suc (Suc n)) FakeOperations tg f) \<in> range Clean"
    by (intro scenario_one_removal [OF tr]) simp_all
  from * show "length (removed (cleandir tz (Suc (Suc n)) FakeOperations tg f)) = 1" ..
  from * show "outcome (cleandir tz (Suc (Suc n)) FakeOperations tg f) \<in> range Clean" ..
qed

lemma body_three_names_counted:
  "cleandir_body utc FakeOperations
     \<lparr>keep_backups = Some 1, target_freespace = None, target_backups = Some 0,
      target_removed = Some 1\<rparr>
     \<lparr>last_dirs = [], target_removed_var = Some 1, was_above_target_freespace = None,
      was_above_target_backups = None\<rparr>
     \<lparr>fake_dirs = [(''20101201-000000'', 1), (''20101201-010000'', 1), (''20101201-020000'', 1)],
      fake_space = 0\<rparr>
   = Delete
       \<lparr>last_dirs = [''20101201-000000'', ''20101201-010000'', ''20101201-020000''],
        target_removed_var = Some 0, was_above_target_freespace = None,
        was_above_target_backups = Some True\<rparr>
       ''20101201-010000''"
  by (simp add: cleandir_body_def FakeOperations_def sort_three_names sorted_value_three_names
      vote_freespace_def vote_backups_def first_def del: sort_key_simps)


theorem target_removed_bound_witness:
  "target_removed \<lparr>keep_backups = Some 1, target_freespace = None, target_backups = Some 0,
       target_removed = Some 1\<rparr> = Some 1 \<and>
   length (fake_dirs test_operations) = 9 \<and>
   int (length (removed (cleandir utc 2 FakeOperations
       \<lparr>keep_backups = Some 1, target_freespace = None, target_backups = Some 0,
        target_removed = Some 1\<rparr> test_operations))) \<le> 1 \<and>
   length (removed (cleandir utc 2 FakeOperations
       \<lparr>keep_backups = Some 1, target_freespace = None, target_backups = Some 0,
        target_removed = Some 1\<rparr> test_operations)) = 1 \<and>
   outcome (cleandir utc 2 FakeOperations
       \<lparr>keep_backups = Some 1, target_freespace = None, target_backups = Some 0,
        target_removed = Some 1\<rparr> test_operations) \<in> range Clean \<and>
   cleandir utc 2 FakeOperations
       \<lparr>keep_backups = Some 1, target_freespace = None, target_backups = Some 0,
        target_removed = Some 1\<rparr>
       \<lparr>fake_dirs = [(''20101201-000000'', 1), (''20101201-010000'', 1), (''20101201-020000'', 1)],
        fake_space = 0\<rparr>
     = \<lparr>outcome = Clean Reached_max_removed,
        backend = \<lparr>fake_dirs = [(''20101201-000000'', 1), (''20101201-020000'', 1)],
                   fake_space = 1\<rparr>,
        removed = [''20101201-010000'']\<rparr>"
proof -
  let ?tg = "\<lparr>keep_backups = Some 1, target_freespace = None, target_backups = Some 0,
    target_removed = Some 1\<rparr>"
  let ?f3 = "\<lparr>fake_dirs = [(''20101201-000000'', 1), (''20101201-010000'', 1),
    (''20101201-020000'', 1)], fake_space = 0\<rparr>"
  let ?f2 = "\<lparr>fake_dirs = [(''20101201-000000'', 1), (''20101201-020000'', 1)],
    fake_space = 1\<rparr>"
  let ?st0 = "\<lparr>last_dirs = [], target_removed_var = Some 1, was_above_target_freespace = None,
    was_above_target_backups = None\<rparr>"
  let ?st1 = "\<lparr>last_dirs = [''20101201-000000'', ''20101201-010000'', ''20101201-020000''],
    target_removed_var = Some 0, was_above_target_freespace = None,
    was_above_target_backups = Some True\<rparr>"
  have tr: "target_removed ?tg = Some 1" and n: "(0 :: int) \<le> 1"
    by simp_all
  note t9 = target_removed_bound [OF tr n, where ops = FakeOperations and s = test_operations
      and f = test_operations]
  have a: "int (length (removed (cleandir utc 2 FakeOperations ?tg test_operations))) \<le> 1"
    by (rule t9 [where n = 2, THEN conjunct1])
  have sc: "1 = (1 :: int) \<and> target_backups ?tg = Some 0 \<and>
      (\<forall>k. keep_backups ?tg = Some k \<longrightarrow> k < 9) \<and>
      distinct (map fst (fake_dirs test_operations)) \<and> length (fake_dirs test_operations) = 9 \<and>
      (\<forall>x \<in> fst ` set (fake_dirs test_operations). valid utc x)"
    using test_operations_dirs test_operations_valid by simp
  have b: "length (removed (cleandir utc (Suc (Suc 0)) FakeOperations ?tg test_operations)) = 1 \<and>
      outcome (cleandir utc (Suc (Suc 0)) FakeOperations ?tg test_operations) \<in> range Clean"
    using sc
    by (rule t9 [where n = 0, THEN conjunct2, THEN conjunct2, THEN conjunct2, THEN conjunct2,
          THEN mp])
  have two: "Suc (Suc 0) = 2"
    by simp
  have z: "target_removed_var ?st1 = Some 0 \<and> (0 :: int) \<le> 0 \<and>
      listdir FakeOperations ?f2 \<noteq> [] \<and> sort (listdir FakeOperations ?f2) \<noteq> last_dirs ?st1 \<and>
      (\<forall>k. keep_backups ?tg = Some k \<longrightarrow> k < int (length (listdir FakeOperations ?f2)))"
    by (simp add: FakeOperations_def)
  have c: "cleandir_loop utc (Suc 0) FakeOperations ?tg ?st1 ?f2 [''20101201-010000'']
      = \<lparr>outcome = Clean Reached_max_removed, backend = ?f2, removed = [''20101201-010000'']\<rparr>"
    using z
    by (rule target_removed_bound [OF tr n, where ops = FakeOperations and s = ?f2
          and st = ?st1 and n = 0,
          THEN conjunct2, THEN conjunct2, THEN conjunct1, THEN spec, THEN mp])
  have "fake_unsnap ?f3 ''20101201-010000'' = Inr ?f2"
    by (simp add: fake_unsnap_def)
  with body_three_names_counted c
  have d: "cleandir utc 2 FakeOperations ?tg ?f3
      = \<lparr>outcome = Clean Reached_max_removed, backend = ?f2, removed = [''20101201-010000'']\<rparr>"
    by (simp add: cleandir_def initial_state_def FakeOperations_def numeral_2_eq_2)
  from tr test_operations_dirs(2) a b [unfolded two] d show ?thesis
    by (intro conjI) blast+
qed

subsection \<open>No progress\<close>

text \<open>
  C5. An iteration whose sorted listing equals that of the iteration before ends the run
  with the fatal failure \<open>No directories removed\<close>: when an iteration goes on to
  \<open>unsnap\<close>, the call succeeds and the next listing is the same, the run fails, whatever
  fuel is left. An empty listing ends the run with the fatal failure
  \<open>No more directories to clean\<close>. A fatal failure is no clean exit.
\<close>

theorem no_progress_is_fatal:
  "(listdir ops s = [] \<longrightarrow>
      cleandir_loop tz (Suc n) ops tg st s acc =
        \<lparr>outcome = Fatal No_more_directories_to_clean, backend = s, removed = acc\<rparr>)
   \<and> (listdir ops s \<noteq> [] \<and> sort (listdir ops s) = last_dirs st \<longrightarrow>
      cleandir_loop tz (Suc n) ops tg st s acc =
        \<lparr>outcome = Fatal No_directories_removed, backend = s, removed = acc\<rparr>)
   \<and> (\<forall>st' d s'. cleandir_body tz ops tg st s = Delete st' d \<and> unsnap ops s d = Inr s' \<and>
         sort (listdir ops s') = sort (listdir ops s) \<longrightarrow>
      cleandir_loop tz (Suc (Suc n)) ops tg st s acc =
        \<lparr>outcome = Fatal No_directories_removed, backend = s', removed = acc @ [d]\<rparr>)
   \<and> (\<forall>e r. Fatal e \<noteq> Clean r)"
proof (intro conjI allI impI)
  assume "listdir ops s = []"
  then have "cleandir_body tz ops tg st s = Raise No_more_directories_to_clean"
    by (rule body_empty)
  then show "cleandir_loop tz (Suc n) ops tg st s acc =
      \<lparr>outcome = Fatal No_more_directories_to_clean, backend = s, removed = acc\<rparr>"
    by simp
next
  assume "listdir ops s \<noteq> [] \<and> sort (listdir ops s) = last_dirs st"
  then have "cleandir_body tz ops tg st s = Raise No_directories_removed"
    using body_unchanged [of ops s st tz tg] by simp
  then show "cleandir_loop tz (Suc n) ops tg st s acc =
      \<lparr>outcome = Fatal No_directories_removed, backend = s, removed = acc\<rparr>"
    by simp
next
  fix st' d s'
  assume a: "cleandir_body tz ops tg st s = Delete st' d \<and> unsnap ops s d = Inr s' \<and>
    sort (listdir ops s') = sort (listdir ops s)"
  then have b: "cleandir_body tz ops tg st s = Delete st' d" and u: "unsnap ops s d = Inr s'"
    and same: "sort (listdir ops s') = sort (listdir ops s)"
    by simp_all
  from body_Delete(2,4) [OF b] same
  have "listdir ops s' \<noteq> []" and "last_dirs st' = sort (listdir ops s')"
    by (auto simp: sort_eq_Nil dest: arg_cong [where f = length])
  then have "cleandir_body tz ops tg st' s' = Raise No_directories_removed"
    by (rule body_unchanged)
  then show "cleandir_loop tz (Suc (Suc n)) ops tg st s acc =
      \<lparr>outcome = Fatal No_directories_removed, backend = s', removed = acc @ [d]\<rparr>"
    using b u by simp
next
  fix e r
  show "Fatal e \<noteq> Clean r"
    by simp
qed

text \<open>A backend that reports success and removes nothing.\<close>

definition stuck_operations :: "unit operations" where
  "stuck_operations =
     \<lparr>listdir = (\<lambda>_. [''20101201-010000'', ''20101201-000000'']),
      freespace = (\<lambda>_. 0),
      unsnap = (\<lambda>s _. Inr s)\<rparr>"

lemma body_stuck:
  "cleandir_body utc stuck_operations
     \<lparr>keep_backups = Some 1, target_freespace = Some 5, target_backups = None,
      target_removed = None\<rparr>
     \<lparr>last_dirs = [], target_removed_var = None, was_above_target_freespace = None,
      was_above_target_backups = None\<rparr> ()
   = Delete
       \<lparr>last_dirs = [''20101201-000000'', ''20101201-010000''],
        target_removed_var = None, was_above_target_freespace = Some True,
        was_above_target_backups = None\<rparr>
       ''20101201-000000''"
proof -
  have "sort [''20101201-010000'', ''20101201-000000'']
      = [''20101201-000000'', ''20101201-010000'']"
    by code_simp
  then show ?thesis
    by (simp add: cleandir_body_def stuck_operations_def sorted_value_two_names sort_two_names
        vote_freespace_def vote_backups_def first_def Let_def del: sort_key_simps)
qed

theorem no_progress_is_fatal_witness:
  "listdir FakeOperations \<lparr>fake_dirs = [], fake_space = 7\<rparr> = [] \<and>
   cleandir utc 1 FakeOperations
       \<lparr>keep_backups = Some 1, target_freespace = Some 5, target_backups = None,
        target_removed = None\<rparr>
       \<lparr>fake_dirs = [], fake_space = 7\<rparr>
     = \<lparr>outcome = Fatal No_more_directories_to_clean,
        backend = \<lparr>fake_dirs = [], fake_space = 7\<rparr>, removed = []\<rparr> \<and>
   unsnap stuck_operations () ''20101201-000000'' = Inr () \<and>
   sort (listdir stuck_operations ()) = sort (listdir stuck_operations ()) \<and>
   cleandir utc 2 stuck_operations
       \<lparr>keep_backups = Some 1, target_freespace = Some 5, target_backups = None,
        target_removed = None\<rparr> ()
     = \<lparr>outcome = Fatal No_directories_removed, backend = (),
        removed = [''20101201-000000'']\<rparr> \<and>
   cleandir utc 7 stuck_operations
       \<lparr>keep_backups = Some 1, target_freespace = Some 5, target_backups = None,
        target_removed = None\<rparr> ()
     = \<lparr>outcome = Fatal No_directories_removed, backend = (),
        removed = [''20101201-000000'']\<rparr>"
proof -
  let ?tg = "\<lparr>keep_backups = Some 1, target_freespace = Some 5, target_backups = None,
    target_removed = None\<rparr>"
  let ?st = "\<lparr>last_dirs = [], target_removed_var = None, was_above_target_freespace = None,
    was_above_target_backups = None\<rparr>"
  let ?st' = "\<lparr>last_dirs = [''20101201-000000'', ''20101201-010000''],
    target_removed_var = None, was_above_target_freespace = Some True,
    was_above_target_backups = None\<rparr>"
  let ?e = "\<lparr>fake_dirs = [], fake_space = 7\<rparr>"
  have e: "listdir FakeOperations ?e = []"
    by (simp add: FakeOperations_def)
  have a: "cleandir_loop utc (Suc 0) FakeOperations ?tg ?st ?e []
      = \<lparr>outcome = Fatal No_more_directories_to_clean, backend = ?e, removed = []\<rparr>"
    using e by (rule no_progress_is_fatal [THEN conjunct1, THEN mp])
  have u: "unsnap stuck_operations () ''20101201-000000'' = Inr ()"
    by (simp add: stuck_operations_def)
  have h: "cleandir_body utc stuck_operations ?tg ?st () = Delete ?st' ''20101201-000000'' \<and>
      unsnap stuck_operations () ''20101201-000000'' = Inr () \<and>
      sort (listdir stuck_operations ()) = sort (listdir stuck_operations ())"
    using body_stuck u by simp
  have b: "cleandir_loop utc (Suc (Suc n)) stuck_operations ?tg ?st () []
      = \<lparr>outcome = Fatal No_directories_removed, backend = (),
         removed = [] @ [''20101201-000000'']\<rparr>" for n
    using h
    by (rule no_progress_is_fatal [THEN conjunct2, THEN conjunct2, THEN conjunct1,
          THEN spec, THEN spec, THEN spec, THEN mp])
  have i: "initial_state ?tg = ?st"
    by (simp add: initial_state_def)
  have n2: "2 = Suc (Suc 0)" and n7: "7 = Suc (Suc 5)"
    by simp_all
  from e a u b [of 0] b [of 5] show ?thesis
    unfolding cleandir_def i One_nat_def n2 n7 by simp
qed

subsection \<open>A second run\<close>

definition votes :: "targets \<Rightarrow> int \<Rightarrow> int \<Rightarrow> bool option" where
  "votes tg fsp dirs_len =
     fst (vote_backups (target_backups tg) dirs_len
       (fst (vote_freespace (target_freespace tg) fsp (None, None)), None))"

lemma fst_vote_freespace:
  "fst (vote_freespace t fsp (d, w)) = fst (vote_freespace t fsp (d, None))"
  by (simp add: vote_freespace_def split: option.splits)

lemma fst_vote_backups:
  "fst (vote_backups t n (d, w)) = fst (vote_backups t n (d, None))"
  by (simp add: vote_backups_def split: option.splits)

lemma votes_eq:
  "vote_freespace (target_freespace tg) fsp (None, w1) = (d1, w1') \<Longrightarrow>
   vote_backups (target_backups tg) n (d1, w2) = (d2, w2') \<Longrightarrow> d2 = votes tg fsp n"
  unfolding votes_def
  using fst_vote_freespace [of "target_freespace tg" fsp None w1]
    fst_vote_backups [of "target_backups tg" n d1 w2]
  by simp

definition passes :: "'s operations \<Rightarrow> targets \<Rightarrow> loop_state \<Rightarrow> 's \<Rightarrow> bool" where
  "passes ops tg st s \<longleftrightarrow>
     listdir ops s \<noteq> [] \<and> sort (listdir ops s) \<noteq> last_dirs st \<and>
     (\<forall>k. keep_backups tg = Some k \<longrightarrow> k < int (length (listdir ops s))) \<and>
     (\<forall>r. target_removed_var st = Some r \<longrightarrow> 0 < r)"

lemma body_satisfied_iff:
  "cleandir_body tz ops tg st s = Break Targets_satisfied \<longleftrightarrow>
     passes ops tg st s \<and>
     votes tg (freespace ops s) (int (length (listdir ops s))) \<noteq> Some True"
proof (cases "passes ops tg st s")
  case False
  then show ?thesis
    by (auto simp: passes_def cleandir_body_def Let_def sort_sort sort_eq_Nil
        split: option.splits prod.splits)
next
  case True
  obtain d1 w1 where v1: "vote_freespace (target_freespace tg) (freespace ops s)
      (None, was_above_target_freespace st) = (d1, w1)"
    by force
  obtain d2 w2 where v2: "vote_backups (target_backups tg) (int (length (listdir ops s)))
      (d1, was_above_target_backups st) = (d2, w2)"
    by force
  have d2: "d2 = votes tg (freespace ops s) (int (length (listdir ops s)))"
    using v1 v2 by (rule votes_eq)
  have k: "\<not> (case keep_backups tg of None \<Rightarrow> False
      | Some k \<Rightarrow> int (length (sort (listdir ops s))) \<le> k)"
    using True by (auto simp: passes_def split: option.splits)
  have r: "\<not> (case target_removed_var st of None \<Rightarrow> False | Some r \<Rightarrow> r \<le> 0)"
    using True by (auto simp: passes_def split: option.splits)
  have "cleandir_body tz ops tg st s = Break Targets_satisfied \<longleftrightarrow> d2 \<noteq> Some True"
    using True k r
    by (simp add: passes_def cleandir_body_def Let_def sort_sort sort_eq_Nil v1 v2
        split: option.splits del: sort_key_simps)
  with True d2 show ?thesis
    by simp
qed

definition counter_le :: "int option \<Rightarrow> int option \<Rightarrow> bool" where
  "counter_le a b = (case (a, b) of
       (None, None) \<Rightarrow> True
     | (Some r', Some r) \<Rightarrow> r' \<le> r
     | _ \<Rightarrow> False)"

lemma counter_le_refl: "counter_le a a"
  by (simp add: counter_le_def split: option.splits)

lemma counter_le_dec:
  "counter_le a (map_option (\<lambda>r. r - 1) b) \<Longrightarrow> counter_le a b"
  by (auto simp: counter_le_def split: option.splits)

lemma final_iteration:
  "outcome (cleandir_loop tz n ops tg st s acc) = Clean Targets_satisfied \<Longrightarrow>
     \<exists>st'. cleandir_body tz ops tg st' (backend (cleandir_loop tz n ops tg st s acc))
              = Break Targets_satisfied \<and>
           counter_le (target_removed_var st') (target_removed_var st)"
proof (induction n arbitrary: st s acc)
  case 0
  then show ?case by simp
next
  case (Suc n)
  show ?case
  proof (cases "cleandir_body tz ops tg st s")
    case (Break r)
    with Suc.prems have "r = Targets_satisfied"
      by simp
    with Break show ?thesis
      using counter_le_refl by auto
  next
    case (Raise e)
    with Suc.prems show ?thesis by simp
  next
    case (Delete st1 d)
    show ?thesis
    proof (cases "unsnap ops s d")
      case (Inl e)
      with Delete Suc.prems show ?thesis by simp
    next
      case (Inr s1)
      with Delete Suc.prems
      have "outcome (cleandir_loop tz n ops tg st1 s1 (acc @ [d])) = Clean Targets_satisfied"
        by simp
      from Suc.IH [OF this] obtain st' where
        st': "cleandir_body tz ops tg st' (backend (cleandir_loop tz n ops tg st1 s1 (acc @ [d])))
            = Break Targets_satisfied"
        "counter_le (target_removed_var st') (target_removed_var st1)"
        by blast
      from st'(2) body_Delete(5) [OF Delete]
      have "counter_le (target_removed_var st') (target_removed_var st)"
        by (simp add: counter_le_dec)
      with st'(1) Delete Inr show ?thesis
        by auto
    qed
  qed
qed

lemma passes_fresh:
  assumes "passes ops tg st' s" and "counter_le (target_removed_var st') (target_removed_var st)"
    and "last_dirs st = []"
  shows "passes ops tg st s"
  using assms
  by (auto simp: passes_def counter_le_def sort_eq_Nil split: option.splits)

text \<open>
  C8. When a run of \<open>cleandir\<close> ends with the clean exit of satisfied targets, a second
  run with the same targets on the backend state it left ends at once with the same clean
  exit, leaves the state as it is and removes nothing.
\<close>

theorem cleandir_idempotent:
  assumes "outcome (cleandir tz n ops tg s) = Clean Targets_satisfied"
  shows "cleandir tz (Suc m) ops tg (backend (cleandir tz n ops tg s)) =
           \<lparr>outcome = Clean Targets_satisfied, backend = backend (cleandir tz n ops tg s),
            removed = []\<rparr>"
proof -
  let ?s = "backend (cleandir tz n ops tg s)"
  from final_iteration [OF assms [unfolded cleandir_def]] obtain st' where
    "cleandir_body tz ops tg st' ?s = Break Targets_satisfied"
    and c: "counter_le (target_removed_var st') (target_removed_var (initial_state tg))"
    unfolding cleandir_def by blast
  then have p: "passes ops tg st' ?s"
    and v: "votes tg (freespace ops ?s) (int (length (listdir ops ?s))) \<noteq> Some True"
    by (simp_all add: body_satisfied_iff)
  from p c have "passes ops tg (initial_state tg) ?s"
    by (rule passes_fresh) simp
  with v have "cleandir_body tz ops tg (initial_state tg) ?s = Break Targets_satisfied"
    by (simp add: body_satisfied_iff)
  then show ?thesis
    by (simp add: cleandir_def)
qed


lemma first_run_three_names:
  "cleandir utc 2 FakeOperations
     \<lparr>keep_backups = Some 1, target_freespace = None, target_backups = Some 2,
      target_removed = None\<rparr>
     \<lparr>fake_dirs = [(''20101201-000000'', 1), (''20101201-010000'', 1), (''20101201-020000'', 1)],
      fake_space = 0\<rparr>
   = \<lparr>outcome = Clean Targets_satisfied,
      backend = \<lparr>fake_dirs = [(''20101201-000000'', 1), (''20101201-020000'', 1)],
                 fake_space = 1\<rparr>,
      removed = [''20101201-010000'']\<rparr>"
proof -
  let ?tg = "\<lparr>keep_backups = Some 1, target_freespace = None, target_backups = Some 2,
    target_removed = None\<rparr>"
  let ?f3 = "\<lparr>fake_dirs = [(''20101201-000000'', 1), (''20101201-010000'', 1),
    (''20101201-020000'', 1)], fake_space = 0\<rparr>"
  let ?f2 = "\<lparr>fake_dirs = [(''20101201-000000'', 1), (''20101201-020000'', 1)],
    fake_space = 1\<rparr>"
  let ?st1 = "\<lparr>last_dirs = [''20101201-000000'', ''20101201-010000'', ''20101201-020000''],
    target_removed_var = None, was_above_target_freespace = None,
    was_above_target_backups = Some True\<rparr>"
  have b1: "cleandir_body utc FakeOperations ?tg (initial_state ?tg) ?f3
      = Delete ?st1 ''20101201-010000''"
    by (simp add: cleandir_body_def FakeOperations_def sort_three_names
        sorted_value_three_names vote_freespace_def vote_backups_def first_def Let_def
        initial_state_def del: sort_key_simps)
  have u: "unsnap FakeOperations ?f3 ''20101201-010000'' = Inr ?f2"
    by (simp add: FakeOperations_def fake_unsnap_def)
  have "passes FakeOperations ?tg ?st1 ?f2"
    by (simp add: passes_def FakeOperations_def)
  moreover have "votes ?tg (freespace FakeOperations ?f2)
      (int (length (listdir FakeOperations ?f2))) \<noteq> Some True"
    by (simp add: votes_def FakeOperations_def vote_freespace_def vote_backups_def)
  ultimately have b2: "cleandir_body utc FakeOperations ?tg ?st1 ?f2 = Break Targets_satisfied"
    by (simp only: body_satisfied_iff simp_thms)
  have "cleandir_loop utc (Suc (Suc 0)) FakeOperations ?tg (initial_state ?tg) ?f3 []
      = \<lparr>outcome = Clean Targets_satisfied, backend = ?f2, removed = [''20101201-010000'']\<rparr>"
    by (simp add: b1 u b2)
  then show ?thesis
    by (simp only: cleandir_def numeral_2_eq_2)
qed

theorem cleandir_idempotent_witness:
  "outcome (cleandir utc 2 FakeOperations
     \<lparr>keep_backups = Some 1, target_freespace = None, target_backups = Some 2,
      target_removed = None\<rparr>
     \<lparr>fake_dirs = [(''20101201-000000'', 1), (''20101201-010000'', 1), (''20101201-020000'', 1)],
      fake_space = 0\<rparr>) = Clean Targets_satisfied \<and>
   removed (cleandir utc 2 FakeOperations
     \<lparr>keep_backups = Some 1, target_freespace = None, target_backups = Some 2,
      target_removed = None\<rparr>
     \<lparr>fake_dirs = [(''20101201-000000'', 1), (''20101201-010000'', 1), (''20101201-020000'', 1)],
      fake_space = 0\<rparr>) = [''20101201-010000''] \<and>
   cleandir utc 1 FakeOperations
     \<lparr>keep_backups = Some 1, target_freespace = None, target_backups = Some 2,
      target_removed = None\<rparr>
     \<lparr>fake_dirs = [(''20101201-000000'', 1), (''20101201-020000'', 1)], fake_space = 1\<rparr>
   = \<lparr>outcome = Clean Targets_satisfied,
      backend = \<lparr>fake_dirs = [(''20101201-000000'', 1), (''20101201-020000'', 1)],
                 fake_space = 1\<rparr>,
      removed = []\<rparr>"
proof -
  let ?tg = "\<lparr>keep_backups = Some 1, target_freespace = None, target_backups = Some 2,
    target_removed = None\<rparr>"
  let ?f3 = "\<lparr>fake_dirs = [(''20101201-000000'', 1), (''20101201-010000'', 1),
    (''20101201-020000'', 1)], fake_space = 0\<rparr>"
  have h: "outcome (cleandir utc 2 FakeOperations ?tg ?f3) = Clean Targets_satisfied"
    by (simp add: first_run_three_names)
  from cleandir_idempotent [OF h, of 0] h show ?thesis
    by (simp add: first_run_three_names)
qed

section \<open>Lexical order and order of values\<close>

lemma days_in_month_bounds: "28 \<le> days_in_month y m \<and> days_in_month y m \<le> 31"
  by (simp add: days_in_month_def)

lemma upto_from_1: "[1..numeral n] = 1 # [2..numeral n]"
  by (simp add: upto_rec1)

lemma days_before_month_table:
  assumes "1 \<le> m" and "m \<le> 12"
  shows "days_before_month y m =
     (if m = 1 then 0 else if m = 2 then 31
      else (if is_leap y then 1 else 0) +
        (if m = 3 then 59 else if m = 4 then 90 else if m = 5 then 120
         else if m = 6 then 151 else if m = 7 then 181 else if m = 8 then 212
         else if m = 9 then 243 else if m = 10 then 273 else if m = 11 then 304 else 334))"
proof -
  from assms have "m = 1 \<or> m = 2 \<or> m = 3 \<or> m = 4 \<or> m = 5 \<or> m = 6 \<or> m = 7 \<or> m = 8 \<or>
      m = 9 \<or> m = 10 \<or> m = 11 \<or> m = 12"
    by arith
  then show ?thesis
    by (elim disjE) (simp_all add: days_before_month_def days_in_month_def upto_from_1)
qed

lemma days_before_month_next:
  assumes "1 \<le> m" and "m < 12"
  shows "days_before_month y (m + 1) = days_before_month y m + days_in_month y m"
proof -
  from assms have "m = 1 \<or> m = 2 \<or> m = 3 \<or> m = 4 \<or> m = 5 \<or> m = 6 \<or> m = 7 \<or> m = 8 \<or>
      m = 9 \<or> m = 10 \<or> m = 11"
    by arith
  then show ?thesis
    by (elim disjE) (simp_all add: days_before_month_def days_in_month_def upto_from_1)
qed


definition date_ok :: "int \<Rightarrow> int \<Rightarrow> int \<Rightarrow> bool" where
  "date_ok y m d \<longleftrightarrow> 1 \<le> m \<and> m \<le> 12 \<and> 1 \<le> d \<and> d \<le> days_in_month y m"

lemma days_before_month_nonneg: "1 \<le> m \<Longrightarrow> m \<le> 12 \<Longrightarrow> 0 \<le> days_before_month y m"
  by (simp add: days_before_month_table)

lemma days_before_month_mono:
  "m \<le> m' \<Longrightarrow> 1 \<le> m \<Longrightarrow> m' \<le> 12 \<Longrightarrow> days_before_month y m \<le> days_before_month y m'"
proof (induction m' rule: int_ge_induct)
  case base
  then show ?case by simp
next
  case (step i)
  then have "days_before_month y (i + 1) = days_before_month y i + days_in_month y i"
    by (intro days_before_month_next) simp_all
  with step days_in_month_bounds [of y i] show ?case
    by simp
qed

lemma day_of_year_le:
  assumes "date_ok y m d"
  shows "days_before_month y m + d \<le> 365 + (if is_leap y then 1 else 0)"
proof -
  from assms have m: "1 \<le> m" "m \<le> 12" and d: "d \<le> days_in_month y m"
    by (simp_all add: date_ok_def)
  have "days_before_month y m + days_in_month y m \<le> 365 + (if is_leap y then 1 else 0)"
  proof (cases "m = 12")
    case True
    then show ?thesis
      by (simp add: days_before_month_table days_in_month_def)
  next
    case False
    with m have "days_before_month y m + days_in_month y m = days_before_month y (m + 1)"
      by (simp add: days_before_month_next)
    also have "\<dots> \<le> days_before_month y 12"
      using m False by (intro days_before_month_mono) simp_all
    also have "\<dots> \<le> 365 + (if is_leap y then 1 else 0)"
      by (simp add: days_before_month_table)
    finally show ?thesis .
  qed
  with d show ?thesis
    by simp
qed

lemma div_step:
  assumes "0 < (k :: int)"
  shows "y div k = (y - 1) div k + (if y mod k = 0 then 1 else 0)"
proof -
  define q r where "q = (y - 1) div k" and "r = (y - 1) mod k"
  have r: "0 \<le> r" "r < k"
    using assms by (simp_all add: r_def)
  have "y - 1 = k * q + r"
    by (simp add: q_def r_def)
  then have y: "y = (r + 1) + k * q"
    by simp
  show ?thesis
  proof (cases "r + 1 = k")
    case True
    with y have yk: "y = k * (q + 1)"
      by (simp add: algebra_simps)
    have "y div k = q + 1"
      using assms by (subst yk) simp
    moreover have "y mod k = 0"
      by (subst yk) simp
    ultimately show ?thesis
      by (simp add: q_def)
  next
    case False
    with r have s: "0 \<le> r + 1" "r + 1 < k"
      by simp_all
    have "y div k = (r + 1) div k + q"
      using assms by (subst y) simp
    moreover have "y mod k = (r + 1) mod k"
      by (subst y) simp
    ultimately show ?thesis
      using s r by (simp add: q_def div_pos_pos_trivial mod_pos_pos_trivial)
  qed
qed


lemma mod_400_100: "(y :: int) mod 400 = 0 \<Longrightarrow> y mod 100 = 0"
  using mod_mod_cancel [of 100 400 y] by simp

lemma mod_100_4: "(y :: int) mod 100 = 0 \<Longrightarrow> y mod 4 = 0"
  using mod_mod_cancel [of 4 100 y] by simp

lemma days_before_year_next:
  "days_before_year (y + 1) = days_before_year y + 365 + (if is_leap y then 1 else 0)"
proof -
  have d4: "y div 4 = (y - 1) div 4 + (if y mod 4 = 0 then 1 else 0)"
    by (rule div_step) simp
  have d100: "y div 100 = (y - 1) div 100 + (if y mod 100 = 0 then 1 else 0)"
    by (rule div_step) simp
  have d400: "y div 400 = (y - 1) div 400 + (if y mod 400 = 0 then 1 else 0)"
    by (rule div_step) simp
  have "days_before_year (y + 1) = y * 365 + y div 4 - y div 100 + y div 400"
    by (simp add: days_before_year_def)
  also have "\<dots> = days_before_year y + 365 + (if is_leap y then 1 else 0)"
  proof (cases "y mod 4 = 0")
    case False
    with mod_100_4 [of y] mod_400_100 [of y] have "y mod 100 \<noteq> 0" "y mod 400 \<noteq> 0"
      by auto
    with False show ?thesis
      unfolding d4 d100 d400 by (simp add: days_before_year_def is_leap_def Let_def algebra_simps)
  next
    case m4: True
    show ?thesis
    proof (cases "y mod 100 = 0")
      case False
      with mod_400_100 [of y] have "y mod 400 \<noteq> 0"
        by auto
      with m4 False show ?thesis
        unfolding d4 d100 d400 by (simp add: days_before_year_def is_leap_def Let_def algebra_simps)
    next
      case True
      with m4 show ?thesis
        unfolding d4 d100 d400 by (simp add: days_before_year_def is_leap_def Let_def algebra_simps)
    qed
  qed
  finally show ?thesis .
qed


lemma triple_less_cases:
  "(a :: int, b :: int, c :: int) < (a', b', c') \<longleftrightarrow>
     a < a' \<or> (a = a' \<and> b < b') \<or> (a = a' \<and> b = b' \<and> c < c')"
  by (auto simp: less_le)

lemma sextuple_less_cases:
  "(a :: int, b :: int, c :: int, d :: int, e :: int, f :: int) < (a', b', c', d', e', f') \<longleftrightarrow>
     (a, b, c) < (a', b', c') \<or> (a = a' \<and> b = b' \<and> c = c' \<and> (d, e, f) < (d', e', f'))"
  by (auto simp: less_le)

lemma days_before_year_mono: "y \<le> y' \<Longrightarrow> days_before_year y \<le> days_before_year y'"
proof (induction y' rule: int_ge_induct)
  case base
  then show ?case by simp
next
  case (step i)
  then show ?case
    by (simp add: days_before_year_next)
qed

lemma ymd2ord_mono:
  assumes "date_ok y m d" and "date_ok y' m' d'" and "(y, m, d) < (y', m', d')"
  shows "ymd2ord y m d < ymd2ord y' m' d'"
proof -
  from assms(1,2) have m: "1 \<le> m" "m \<le> 12" "1 \<le> d" "d \<le> days_in_month y m"
    and m': "1 \<le> m'" "m' \<le> 12" "1 \<le> d'"
    by (simp_all add: date_ok_def)
  from assms(3) consider "y < y'" | "y = y'" "m < m'" | "y = y'" "m = m'" "d < d'"
    unfolding triple_less_cases by blast
  then show ?thesis
  proof cases
    case 1
    have "ymd2ord y m d \<le> days_before_year (y + 1)"
      using day_of_year_le [OF assms(1)] by (simp add: ymd2ord_def days_before_year_next)
    also have "\<dots> \<le> days_before_year y'"
      using 1 by (intro days_before_year_mono) simp
    also have "\<dots> < ymd2ord y' m' d'"
      using days_before_month_nonneg [OF m'(1,2), of y'] m'(3) by (simp add: ymd2ord_def)
    finally show ?thesis .
  next
    case 2
    from 2 m' have "m < 12"
      by simp
    with m have "days_before_month y (m + 1) = days_before_month y m + days_in_month y m"
      by (intro days_before_month_next)
    with m have "days_before_month y m + d \<le> days_before_month y (m + 1)"
      by simp
    also have "\<dots> \<le> days_before_month y m'"
      using m 2 m' by (intro days_before_month_mono) simp_all
    finally show ?thesis
      using 2 m'(3) by (simp add: ymd2ord_def)
  next
    case 3
    then show ?thesis
      by (simp add: ymd2ord_def)
  qed
qed

definition time_ok :: "int \<Rightarrow> int \<Rightarrow> int \<Rightarrow> bool" where
  "time_ok h mi s \<longleftrightarrow> 0 \<le> h \<and> h \<le> 23 \<and> 0 \<le> mi \<and> mi \<le> 59 \<and> 0 \<le> s \<and> s \<le> 59"

lemma second_of_day_mono:
  assumes "time_ok h mi s" and "time_ok h' mi' s'" and "(h, mi, s) < (h', mi', s')"
  shows "h * 3600 + mi * 60 + s < h' * 3600 + mi' * 60 + s'"
  using assms unfolding time_ok_def triple_less_cases by (elim disjE conjE) simp_all

lemma second_of_day_range:
  "time_ok h mi s \<Longrightarrow> 0 \<le> h * 3600 + mi * 60 + s \<and> h * 3600 + mi * 60 + s < 86400"
  by (auto simp: time_ok_def)

lemma timegm_mono:
  assumes "date_ok y m d" and "time_ok h mi s" and "date_ok y' m' d'" and "time_ok h' mi' s'"
    and "(y, m, d, h, mi, s) < (y', m', d', h', mi', s')"
  shows "timegm (y, m, d, h, mi, s) < timegm (y', m', d', h', mi', s')"
proof -
  from assms(5) consider "(y, m, d) < (y', m', d')"
    | "y = y'" "m = m'" "d = d'" "(h, mi, s) < (h', mi', s')"
    unfolding sextuple_less_cases by blast
  then show ?thesis
  proof cases
    case 1
    from ymd2ord_mono [OF assms(1,3) 1]
    have "(ymd2ord y m d + 1) * 86400 \<le> ymd2ord y' m' d' * 86400"
      by simp
    with second_of_day_range [OF assms(2)] second_of_day_range [OF assms(4)]
    show ?thesis
      by (simp add: timegm_def algebra_simps)
  next
    case 2
    with second_of_day_mono [OF assms(2,4)] show ?thesis
      by (simp add: timegm_def)
  qed
qed

subsection \<open>Strings of digits\<close>

text \<open>The number that a string of decimal digits denotes.\<close>

fun num :: "string \<Rightarrow> int" where
  "num [] = 0"
| "num (c # s) = digit_val c * 10 ^ length s + num s"

lemma digit_val_range: "is_digit c \<Longrightarrow> 0 \<le> digit_val c \<and> digit_val c \<le> 9"
  by (simp add: is_digit_def in_range_def digit_val_def less_eq_char_def)

lemma digit_val_less: "c < c' \<longleftrightarrow> digit_val c < digit_val c'"
  by (simp add: digit_val_def less_char_def)

lemma digit_val_eq: "c = c' \<longleftrightarrow> digit_val c = digit_val c'"
  by (auto simp: digit_val_def)

lemma in_range_digit_val:
  "in_range lo hi c \<Longrightarrow> digit_val lo \<le> digit_val c \<and> digit_val c \<le> digit_val hi"
  by (simp add: in_range_def digit_val_def less_eq_char_def)

lemma num_range: "list_all is_digit s \<Longrightarrow> 0 \<le> num s \<and> num s < 10 ^ length s"
proof (induction s)
  case Nil
  then show ?case by simp
next
  case (Cons c s)
  then have d: "0 \<le> digit_val c" "digit_val c + 1 \<le> 10" and IH: "0 \<le> num s" "num s < 10 ^ length s"
    using digit_val_range [of c] by simp_all
  have "digit_val c * 10 ^ length s + num s < (digit_val c + 1) * 10 ^ length s"
    using IH by (simp add: algebra_simps)
  also have "\<dots> \<le> 10 * 10 ^ length s"
    using d(2) by (intro mult_right_mono) simp_all
  finally show ?case
    using d(1) IH(1) by simp
qed

lemma num_less:
  assumes "length s = length t" and "list_all is_digit s" and "list_all is_digit t"
  shows "(s < t \<longleftrightarrow> num s < num t) \<and> (s = t \<longleftrightarrow> num s = num t)"
  using assms
proof (induction s t rule: list_induct2)
  case Nil
  then show ?case by simp
next
  case (Cons c s c' t)
  let ?P = "(10 :: int) ^ length s"
  from Cons have IH: "s < t \<longleftrightarrow> num s < num t" "s = t \<longleftrightarrow> num s = num t"
    and rs: "0 \<le> num s" "num s < ?P" and rt: "0 \<le> num t" "num t < ?P"
    using num_range [of s] num_range [of t] by simp_all
  have less: "digit_val a * ?P + x < digit_val b * ?P + y"
    if "digit_val a < digit_val b" "0 \<le> x" "x < ?P" "0 \<le> y" for a b x y
  proof -
    have "digit_val a * ?P + x < (digit_val a + 1) * ?P"
      using that by (simp add: algebra_simps)
    also have "\<dots> \<le> digit_val b * ?P"
      using that by (intro mult_right_mono) simp_all
    finally show ?thesis
      using that by simp
  qed
  consider "digit_val c < digit_val c'" | "digit_val c' < digit_val c" | "digit_val c = digit_val c'"
    by linarith
  then show ?case
  proof cases
    case 1
    then have "c < c'"
      by (simp add: digit_val_less)
    then have A: "c # s < c' # t" and A': "c # s \<noteq> c' # t"
      by auto
    have B: "num (c # s) < num (c' # t)"
      using less [OF 1 rs rt(1)] by (simp add: Cons.hyps)
    from A A' B show ?thesis
      by simp
  next
    case 2
    then have "c' < c"
      by (simp add: digit_val_less)
    then have A: "c' # t < c # s" and A': "c # s \<noteq> c' # t"
      by auto
    have B: "num (c' # t) < num (c # s)"
      using less [OF 2 rt rs(1)] by (simp add: Cons.hyps)
    from A have "\<not> c # s < c' # t"
      using order.asym by blast
    with A' B show ?thesis
      by simp
  next
    case 3
    then have "c = c'"
      by (simp add: digit_val_eq)
    then show ?thesis
      using IH by (simp add: Cons.hyps)
  qed
qed

lemma num_append: "num (u @ v) = num u * 10 ^ length v + num v"
  by (induction u) (simp_all add: algebra_simps power_add)

lemma less_append_same_length:
  "length u = length u' \<Longrightarrow> u @ v < u' @ v' \<longleftrightarrow> u < u' \<or> (u = u' \<and> v < (v' :: string))"
  by (induction u u' rule: list_induct2) auto

subsection \<open>Names of the exact form\<close>

text \<open>A name of the exact form \<open>YYYYMMDD-HHMMSS\<close>, every field zero-padded, and the six
  numbers its fields denote.\<close>

definition canonical :: "string \<Rightarrow> bool" where
  "canonical x \<longleftrightarrow>
     length x = 15 \<and> x ! 8 = CHR ''-'' \<and>
     list_all is_digit (take 8 x) \<and> list_all is_digit (drop 9 x)"

definition name_fields :: "string \<Rightarrow> struct_time" where
  "name_fields x =
     (num (take 4 x), num (take 2 (drop 4 x)), num (take 2 (drop 6 x)),
      num (take 2 (drop 9 x)), num (take 2 (drop 11 x)), num (take 2 (drop 13 x)))"

lemma canonical_split:
  assumes "canonical x"
  shows "x = take 8 x @ CHR ''-'' # drop 9 x"
proof -
  from assms have l: "length x = 15" and h: "x ! 8 = CHR ''-''"
    by (simp_all add: canonical_def)
  have "x = take 8 x @ drop 8 x"
    by simp
  also have "drop 8 x = x ! 8 # drop 9 x"
    using l Cons_nth_drop_Suc [of 8 x] by simp
  finally show ?thesis
    using h by simp
qed

lemma list_all_take_drop:
  "list_all P xs \<Longrightarrow> list_all P (take n (drop k xs))"
  by (auto simp: list_all_iff dest: in_set_takeD in_set_dropD)

lemma two_digits_range:
  "list_all is_digit s \<Longrightarrow> 0 \<le> num (take 2 (drop k s)) \<and> num (take 2 (drop k s)) \<le> 99"
proof -
  assume "list_all is_digit s"
  then have "list_all is_digit (take 2 (drop k s))"
    by (rule list_all_take_drop)
  from num_range [OF this] have "0 \<le> num (take 2 (drop k s))"
    and "num (take 2 (drop k s)) < 10 ^ length (take 2 (drop k s))"
    by simp_all
  moreover have "(10 :: int) ^ length (take 2 (drop k s)) \<le> 10 ^ 2"
    by (intro power_increasing) simp_all
  ultimately show ?thesis
    by simp
qed

lemma num_take_drop: "num t = num (take n t) * 10 ^ length (drop n t) + num (drop n t)"
  using num_append [of "take n t" "drop n t"] by simp

lemma num_split3:
  assumes "length s = k + 4"
  shows "num s = num (take k s) * 10000 + num (take 2 (drop k s)) * 100
           + num (take 2 (drop (k + 2) s))"
proof -
  note a = num_take_drop [of s k]
  note b = num_take_drop [of "drop k s" 2]
  have c: "drop 2 (drop k s) = take 2 (drop (k + 2) s)"
    using assms by (simp add: add.commute)
  have l: "length (drop k s) = 4" "length (drop 2 (drop k s)) = 2"
    using assms by simp_all
  have a': "num s = num (take k s) * 10 ^ 4 + num (drop k s)"
    using a by (simp only: l(1))
  have b': "num (drop k s) = num (take 2 (drop k s)) * 10 ^ 2 + num (drop 2 (drop k s))"
    using b by (simp only: l(2))
  have "num s = num (take k s) * 10 ^ 4
      + (num (take 2 (drop k s)) * 10 ^ 2 + num (take 2 (drop (k + 2) s)))"
    using a' b' by (simp only: c)
  then show ?thesis
    by simp
qed

lemma strict_mono_on_iff:
  fixes f :: "'a :: linorder \<Rightarrow> 'b :: linorder"
  assumes mono: "\<And>x y. P x \<Longrightarrow> P y \<Longrightarrow> x < y \<Longrightarrow> f x < f y" and "P a" and "P b"
  shows "(a < b \<longleftrightarrow> f a < f b) \<and> (a = b \<longleftrightarrow> f a = f b)"
proof (cases a b rule: linorder_cases)
  case less
  with mono [OF assms(2,3)] show ?thesis
    by auto
next
  case equal
  then show ?thesis
    by simp
next
  case greater
  with mono [OF assms(3,2)] show ?thesis
    by auto
qed

lemma pack3_mono:
  assumes "0 \<le> m \<and> m \<le> 99 \<and> 0 \<le> d \<and> d \<le> (99 :: int)"
    and "0 \<le> m' \<and> m' \<le> 99 \<and> 0 \<le> d' \<and> d' \<le> (99 :: int)"
    and "(y, m, d) < (y', m', d')"
  shows "y * 10000 + m * 100 + d < y' * 10000 + m' * 100 + d'"
  using assms unfolding triple_less_cases by (elim disjE conjE) simp_all


lemma pack3_iff:
  assumes "0 \<le> m \<and> m \<le> 99 \<and> 0 \<le> d \<and> d \<le> (99 :: int)"
    and "0 \<le> m' \<and> m' \<le> 99 \<and> 0 \<le> d' \<and> d' \<le> (99 :: int)"
  shows "((y, m, d) < (y', m', d') \<longleftrightarrow>
            y * 10000 + m * 100 + d < y' * 10000 + m' * 100 + d') \<and>
         ((y, m, d) = (y', m', d') \<longleftrightarrow>
            y * 10000 + m * 100 + d = y' * 10000 + m' * 100 + d')"
proof -
  let ?P = "\<lambda>(y :: int, m, d). 0 \<le> m \<and> m \<le> 99 \<and> 0 \<le> d \<and> d \<le> (99 :: int)"
  let ?f = "\<lambda>(y :: int, m :: int, d :: int). y * 10000 + m * 100 + d"
  have "(((y, m, d) < (y', m', d')) \<longleftrightarrow> ?f (y, m, d) < ?f (y', m', d')) \<and>
      ((y, m, d) = (y', m', d') \<longleftrightarrow> ?f (y, m, d) = ?f (y', m', d'))"
  proof (rule strict_mono_on_iff [where P = ?P])
    fix x y :: "int \<times> int \<times> int"
    assume "?P x" "?P y" "x < y"
    then show "?f x < ?f y"
      by (cases x, cases y) (simp only: prod.case, rule pack3_mono)
  qed (use assms in simp_all)
  then show ?thesis
    by simp
qed

lemma fields_date:
  assumes "canonical x"
  shows "num (take 8 x) = num (take 4 x) * 10000 + num (take 2 (drop 4 x)) * 100
           + num (take 2 (drop 6 x))"
proof -
  from assms have "length (take 8 x) = 4 + 4"
    by (simp add: canonical_def)
  from num_split3 [OF this] show ?thesis
    by (simp add: drop_take)
qed

lemma fields_time:
  assumes "canonical x"
  shows "num (drop 9 x) = num (take 2 (drop 9 x)) * 10000 + num (take 2 (drop 11 x)) * 100
           + num (take 2 (drop 13 x))"
proof -
  from assms have "length (drop 9 x) = 2 + 4"
    by (simp add: canonical_def)
  from num_split3 [OF this] show ?thesis
    by simp
qed

lemma canonical_ranges:
  assumes "canonical x"
  shows "0 \<le> num (take 2 (drop 4 x)) \<and> num (take 2 (drop 4 x)) \<le> 99 \<and>
         0 \<le> num (take 2 (drop 6 x)) \<and> num (take 2 (drop 6 x)) \<le> 99"
    and "0 \<le> num (take 2 (drop 11 x)) \<and> num (take 2 (drop 11 x)) \<le> 99 \<and>
         0 \<le> num (take 2 (drop 13 x)) \<and> num (take 2 (drop 13 x)) \<le> 99"
proof -
  from assms have d: "list_all is_digit (take 8 x)" and t: "list_all is_digit (drop 9 x)"
    by (simp_all add: canonical_def)
  from two_digits_range [OF d, of 4] two_digits_range [OF d, of 6]
  show "0 \<le> num (take 2 (drop 4 x)) \<and> num (take 2 (drop 4 x)) \<le> 99 \<and>
      0 \<le> num (take 2 (drop 6 x)) \<and> num (take 2 (drop 6 x)) \<le> 99"
    by (simp add: drop_take)
  from two_digits_range [OF t, of 2] two_digits_range [OF t, of 4]
  show "0 \<le> num (take 2 (drop 11 x)) \<and> num (take 2 (drop 11 x)) \<le> 99 \<and>
      0 \<le> num (take 2 (drop 13 x)) \<and> num (take 2 (drop 13 x)) \<le> 99"
    by simp
qed

lemma canonical_less:
  assumes a: "canonical a" and b: "canonical b"
  shows "(a < b \<longleftrightarrow> name_fields a < name_fields b) \<and> (a = b \<longleftrightarrow> name_fields a = name_fields b)"
proof -
  have la: "length (take 8 a) = length (take 8 b)" "length (drop 9 a) = length (drop 9 b)"
    using a b by (simp_all add: canonical_def)
  have da: "list_all is_digit (take 8 a)" "list_all is_digit (take 8 b)"
    "list_all is_digit (drop 9 a)" "list_all is_digit (drop 9 b)"
    using a b by (simp_all add: canonical_def)
  have "a < b \<longleftrightarrow> take 8 a @ CHR ''-'' # drop 9 a < take 8 b @ CHR ''-'' # drop 9 b"
    using canonical_split [OF a] canonical_split [OF b] by simp
  also have "\<dots> \<longleftrightarrow> take 8 a < take 8 b \<or> (take 8 a = take 8 b \<and> drop 9 a < drop 9 b)"
    by (simp add: less_append_same_length [OF la(1)])
  finally have less: "a < b \<longleftrightarrow>
      num (take 8 a) < num (take 8 b) \<or>
      (num (take 8 a) = num (take 8 b) \<and> num (drop 9 a) < num (drop 9 b))"
    using num_less [OF la(1) da(1,2)] num_less [OF la(2) da(3,4)] by simp
  have "a = b \<longleftrightarrow> take 8 a @ CHR ''-'' # drop 9 a = take 8 b @ CHR ''-'' # drop 9 b"
    using canonical_split [OF a] canonical_split [OF b] by simp
  also have "\<dots> \<longleftrightarrow> take 8 a = take 8 b \<and> drop 9 a = drop 9 b"
    using la(1) by simp
  finally have eq: "a = b \<longleftrightarrow>
      num (take 8 a) = num (take 8 b) \<and> num (drop 9 a) = num (drop 9 b)"
    using num_less [OF la(1) da(1,2)] num_less [OF la(2) da(3,4)] by simp
  note pd = pack3_iff [OF canonical_ranges(1) [OF a] canonical_ranges(1) [OF b],
      of "num (take 4 a)" "num (take 4 b)", folded fields_date [OF a] fields_date [OF b]]
  note pt = pack3_iff [OF canonical_ranges(2) [OF a] canonical_ranges(2) [OF b],
      of "num (take 2 (drop 9 a))" "num (take 2 (drop 9 b))",
      folded fields_time [OF a] fields_time [OF b]]
  show ?thesis
    unfolding less eq name_fields_def sextuple_less_cases
    using pd pt by (simp only: prod.inject) blast
qed

subsection \<open>What the regular expression matches\<close>

text \<open>What a group of the regular expression consumes: one or two characters; when
  they are digits, the group's value is the number they denote, within the group's
  range.\<close>

definition piece :: "int \<Rightarrow> int \<Rightarrow> string \<Rightarrow> int \<Rightarrow> string \<Rightarrow> bool" where
  "piece lo hi s v r \<longleftrightarrow>
     (\<exists>p. s = p @ r \<and> (length p = 1 \<or> length p = 2) \<and>
          (list_all is_digit p \<longrightarrow> v = num p \<and> lo \<le> v \<and> v \<le> hi))"

lemma two_piece:
  assumes "(v, r) \<in> set (two p q s)"
    and "\<And>a b. p a \<Longrightarrow> q b \<Longrightarrow> is_digit a \<Longrightarrow> is_digit b \<Longrightarrow>
           lo \<le> 10 * digit_val a + digit_val b \<and> 10 * digit_val a + digit_val b \<le> hi"
  shows "piece lo hi s v r"
proof -
  from assms(1) obtain a b where s: "s = [a, b] @ r" and pq: "p a" "q b"
    and v: "v = 10 * digit_val a + digit_val b"
    by (auto simp: two_def split: list.splits if_splits)
  have "list_all is_digit [a, b] \<longrightarrow> v = num [a, b] \<and> lo \<le> v \<and> v \<le> hi"
    using assms(2) [OF pq] v by simp
  with s show ?thesis
    unfolding piece_def by (intro exI [of _ "[a, b]"]) auto
qed

lemma one_piece:
  assumes "(v, r) \<in> set (one p s)"
    and "\<And>a. p a \<Longrightarrow> is_digit a \<Longrightarrow> lo \<le> digit_val a \<and> digit_val a \<le> hi"
  shows "piece lo hi s v r"
proof -
  from assms(1) obtain a where s: "s = [a] @ r" and p: "p a" and v: "v = digit_val a"
    by (auto simp: one_def split: list.splits if_splits)
  have "list_all is_digit [a] \<longrightarrow> v = num [a] \<and> lo \<le> v \<and> v \<le> hi"
    using assms(2) [OF p] v by simp
  with s show ?thesis
    unfolding piece_def by (intro exI [of _ "[a]"]) auto
qed

lemma digit_vals [simp]:
  "digit_val (CHR ''0'') = 0" "digit_val (CHR ''1'') = 1" "digit_val (CHR ''2'') = 2"
  "digit_val (CHR ''3'') = 3" "digit_val (CHR ''5'') = 5" "digit_val (CHR ''6'') = 6"
  "digit_val (CHR ''9'') = 9"
  by (simp_all add: digit_val_def)

lemma re_H_piece: "(v, r) \<in> set (re_H s) \<Longrightarrow> piece 0 23 s v r"
  unfolding re_H_def set_append Un_iff
  by (elim disjE; (erule two_piece | erule one_piece))
    (auto simp: is_digit_def dest!: in_range_digit_val)

lemma re_M_piece: "(v, r) \<in> set (re_M s) \<Longrightarrow> piece 0 59 s v r"
  unfolding re_M_def set_append Un_iff
  by (elim disjE; (erule two_piece | erule one_piece))
    (auto simp: is_digit_def dest!: in_range_digit_val)

lemma re_S_piece: "(v, r) \<in> set (re_S s) \<Longrightarrow> piece 0 61 s v r"
  unfolding re_S_def set_append Un_iff
  by (elim disjE; (erule two_piece | erule one_piece))
    (auto simp: is_digit_def dest!: in_range_digit_val)

lemma re_m_piece: "(v, r) \<in> set (re_m s) \<Longrightarrow> piece 0 99 s v r"
  unfolding re_m_def set_append Un_iff
  by (elim disjE; (erule two_piece | erule one_piece))
    (auto simp: is_digit_def dest!: in_range_digit_val)

lemma space_piece:
  assumes "(v, r) \<in> set (case s of a # b # r \<Rightarrow>
      if a = CHR '' '' \<and> in_range (CHR ''1'') (CHR ''9'') b then [(digit_val b, r)] else []
    | _ \<Rightarrow> [])"
  shows "piece lo hi s v r"
proof -
  from assms obtain b where s: "s = [CHR '' '', b] @ r"
    by (auto split: list.splits if_splits)
  have "\<not> list_all is_digit [CHR '' '', b]"
    by (simp add: is_digit_def in_range_def less_eq_char_def)
  with s show ?thesis
    unfolding piece_def by (intro exI [of _ "[CHR '' '', b]"]) auto
qed

lemma re_d_piece: "(v, r) \<in> set (re_d s) \<Longrightarrow> piece 0 99 s v r"
  unfolding re_d_def set_append Un_iff
  by (elim disjE; (erule two_piece | erule one_piece | erule space_piece))
    (auto simp: is_digit_def dest!: in_range_digit_val)

lemma re_Y_piece:
  "(v, r) \<in> set (re_Y s) \<Longrightarrow> \<exists>p. s = p @ r \<and> length p = 4 \<and> v = num p"
proof -
  assume "(v, r) \<in> set (re_Y s)"
  then obtain a b c d where "s = [a, b, c, d] @ r"
    and "v = 1000 * digit_val a + 100 * digit_val b + 10 * digit_val c + digit_val d"
    by (auto simp: re_Y_def split: list.splits if_splits)
  then show ?thesis
    by (intro exI [of _ "[a, b, c, d]"]) simp
qed

lemma lit_piece: "r \<in> set (lit c s) \<Longrightarrow> s = c # r"
  by (auto simp: lit_def split: list.splits if_splits)

lemma format_regex_match_pieces:
  assumes "((Y, m, d, H, M, S), r7) \<in> set (format_regex_match s)"
  shows "\<exists>r1 r2 r3 r4 r5 r6.
           (Y, r1) \<in> set (re_Y s) \<and> (m, r2) \<in> set (re_m r1) \<and> (d, r3) \<in> set (re_d r2) \<and>
           r4 \<in> set (lit (CHR ''-'') r3) \<and> (H, r5) \<in> set (re_H r4) \<and>
           (M, r6) \<in> set (re_M r5) \<and> (S, r7) \<in> set (re_S r6)"
  using assms unfolding format_regex_match_def by auto blast

lemma piece_length:
  "piece lo hi s v r \<Longrightarrow>
     \<exists>p. s = p @ r \<and> 1 \<le> length p \<and> length p \<le> 2 \<and>
         (list_all is_digit p \<longrightarrow> v = num p \<and> lo \<le> v \<and> v \<le> hi)"
  unfolding piece_def by auto

lemma canonical_match:
  assumes c: "canonical x" and m: "((Y, m, d, H, M, S), []) \<in> set (format_regex_match x)"
  shows "(Y, m, d, H, M, S) = name_fields x \<and> 0 \<le> H \<and> H \<le> 23 \<and> 0 \<le> M \<and> M \<le> 59 \<and>
         0 \<le> S \<and> S \<le> 61"
proof -
  from format_regex_match_pieces [OF m] obtain r1 r2 r3 r4 r5 r6 where
    g: "(Y, r1) \<in> set (re_Y x)" "(m, r2) \<in> set (re_m r1)" "(d, r3) \<in> set (re_d r2)"
    "r4 \<in> set (lit (CHR ''-'') r3)" "(H, r5) \<in> set (re_H r4)"
    "(M, r6) \<in> set (re_M r5)" "(S, []) \<in> set (re_S r6)"
    by blast
  from re_Y_piece [OF g(1)] obtain pY where
    pY: "x = pY @ r1" "length pY = 4" "Y = num pY"
    by blast
  from piece_length [OF re_m_piece [OF g(2)]] obtain pm where
    pm: "r1 = pm @ r2" "1 \<le> length pm" "length pm \<le> 2"
    "list_all is_digit pm \<longrightarrow> m = num pm \<and> 0 \<le> m \<and> m \<le> 99"
    by blast
  from piece_length [OF re_d_piece [OF g(3)]] obtain pd where
    pd: "r2 = pd @ r3" "1 \<le> length pd" "length pd \<le> 2"
    "list_all is_digit pd \<longrightarrow> d = num pd \<and> 0 \<le> d \<and> d \<le> 99"
    by blast
  from lit_piece [OF g(4)] have r3: "r3 = CHR ''-'' # r4" .
  from piece_length [OF re_H_piece [OF g(5)]] obtain pH where
    pH: "r4 = pH @ r5" "1 \<le> length pH" "length pH \<le> 2"
    "list_all is_digit pH \<longrightarrow> H = num pH \<and> 0 \<le> H \<and> H \<le> 23"
    by blast
  from piece_length [OF re_M_piece [OF g(6)]] obtain pM where
    pM: "r5 = pM @ r6" "1 \<le> length pM" "length pM \<le> 2"
    "list_all is_digit pM \<longrightarrow> M = num pM \<and> 0 \<le> M \<and> M \<le> 59"
    by blast
  from piece_length [OF re_S_piece [OF g(7)]] obtain pS where
    pS: "r6 = pS @ []" "1 \<le> length pS" "length pS \<le> 2"
    "list_all is_digit pS \<longrightarrow> S = num pS \<and> 0 \<le> S \<and> S \<le> 61"
    by blast
  have x: "x = pY @ pm @ pd @ CHR ''-'' # pH @ pM @ pS"
    by (simp add: pY(1) pm(1) pd(1) r3 pH(1) pM(1) pS(1))
  from c have "length x = 15"
    by (simp add: canonical_def)
  then have "length pm + length pd + length pH + length pM + length pS = 10"
    by (subst (asm) x) (simp add: pY(2))
  then have l: "length pm = 2" "length pd = 2" "length pH = 2" "length pM = 2" "length pS = 2"
    using pm(3) pd(3) pH(3) pM(3) pS(3) by linarith+
  have t: "take 4 x = pY" "take 2 (drop 4 x) = pm" "take 2 (drop 6 x) = pd"
    "take 2 (drop 9 x) = pH" "take 2 (drop 11 x) = pM" "take 2 (drop 13 x) = pS"
    by (subst x, simp add: pY(2) l)+
  have "take 8 x = pY @ pm @ pd" and "drop 9 x = pH @ pM @ pS"
    by (subst x, simp add: pY(2) l)+
  with c have "list_all is_digit pm" "list_all is_digit pd" "list_all is_digit pH"
    "list_all is_digit pM" "list_all is_digit pS"
    by (simp_all add: canonical_def)
  with pm(4) pd(4) pH(4) pM(4) pS(4) pY(3) show ?thesis
    by (simp add: name_fields_def t)
qed

lemma canonical_strptime:
  assumes "canonical x" and "strptime x = Inr tm"
  shows "tm = name_fields x \<and>
         (case tm of (Y, m, d, H, M, S) \<Rightarrow>
            1 \<le> Y \<and> date_ok Y m d \<and> 0 \<le> H \<and> H \<le> 23 \<and> 0 \<le> M \<and> M \<le> 59 \<and> 0 \<le> S \<and> S \<le> 61)"
proof -
  from assms(2) obtain Y m d H M S rest where
    hd: "format_regex_match x = ((Y, m, d, H, M, S), []) # rest"
    and ok: "1 \<le> Y" "1 \<le> m" "m \<le> 12" "1 \<le> d" "d \<le> days_in_month Y m"
    and tm: "tm = (Y, m, d, H, M, S)"
    by (auto simp: strptime_def split: list.splits if_splits)
  from hd have "((Y, m, d, H, M, S), []) \<in> set (format_regex_match x)"
    by simp
  from canonical_match [OF assms(1) this]
  have eq: "name_fields x = (Y, m, d, H, M, S)"
    and r: "0 \<le> H" "H \<le> 23" "0 \<le> M" "M \<le> 59" "0 \<le> S" "S \<le> 61"
    by simp_all
  show ?thesis
    using ok r by (simp add: tm eq date_ok_def)
qed

subsection \<open>The two orders\<close>

definition year_of :: "string \<Rightarrow> int" where
  "year_of x = num (take 4 x)"

definition second_of :: "string \<Rightarrow> int" where
  "second_of x = num (take 2 (drop 13 x))"

lemma is_digit_not_slash: "is_digit c \<Longrightarrow> c \<noteq> CHR ''/''"
  by (auto simp: is_digit_def in_range_def less_eq_char_def)

lemma canonical_tail:
  assumes "canonical x"
  shows "os_path_split_tail x = x"
proof -
  from assms have "\<forall>c \<in> set (take 8 x). is_digit c" and "\<forall>c \<in> set (drop 9 x). is_digit c"
    by (simp_all add: canonical_def list_all_iff)
  moreover have "set x = set (take 8 x) \<union> insert (CHR ''-'') (set (drop 9 x))"
    by (subst canonical_split [OF assms]) simp
  ultimately have "\<forall>c \<in> set x. c \<noteq> CHR ''/''"
    by (auto dest: is_digit_not_slash)
  then have "\<forall>c \<in> set (rev x). c \<noteq> CHR ''/''"
    by simp
  then have tw: "takeWhile (\<lambda>c. c \<noteq> CHR ''/'') (rev x) = rev x"
    by (rule takeWhile_eq_all_conv [THEN iffD2])
  show ?thesis
    unfolding os_path_split_tail_def tw by (rule rev_rev_ident)
qed

definition fields_ok :: "struct_time \<Rightarrow> bool" where
  "fields_ok tm = (case tm of (Y, m, d, H, M, S) \<Rightarrow> date_ok Y m d \<and> time_ok H M S)"

lemma canonical_timef:
  assumes c: "canonical x" and v: "valid tz x" and y: "1900 \<le> year_of x" and s: "second_of x \<le> 59"
  shows "timef tz x = Some (exp (real_of_int (tz (timegm (name_fields x))) / TIME_SCALE)) \<and>
         fields_ok (name_fields x)"
proof -
  from v obtain w where w: "timef tz x = Some w"
    using valid_timef_the by blast
  then obtain tm where tm: "strptime x = Inr tm"
    by (cases "strptime x") (simp_all add: timef_def canonical_tail [OF c])
  obtain Y m d H M S where f: "name_fields x = (Y, m, d, H, M, S)"
    by (cases "name_fields x") auto
  from canonical_strptime [OF c tm] have "tm = name_fields x"
    and "case tm of (Y, m, d, H, M, S) \<Rightarrow>
      1 \<le> Y \<and> date_ok Y m d \<and> 0 \<le> H \<and> H \<le> 23 \<and> 0 \<le> M \<and> M \<le> 59 \<and> 0 \<le> S \<and> S \<le> 61"
    by blast+
  then have tmf: "tm = (Y, m, d, H, M, S)" and ok: "date_ok Y m d"
    "0 \<le> H" "H \<le> 23" "0 \<le> M" "M \<le> 59" "0 \<le> S"
    by (simp_all add: f)
  from f y s have Y: "1900 \<le> Y" and S: "S \<le> 59"
    by (simp_all add: name_fields_def year_of_def second_of_def)
  have mk: "mktime tz tm = Inr (tz (timegm (name_fields x)))"
    using Y by (simp add: mktime_def tmf f)
  from w have "math_exp (real_of_int (tz (timegm (name_fields x))) / TIME_SCALE) = Inr w"
    by (cases "math_exp (real_of_int (tz (timegm (name_fields x))) / TIME_SCALE)")
      (simp_all add: timef_def canonical_tail [OF c] tm mk)
  then have "w = exp (real_of_int (tz (timegm (name_fields x))) / TIME_SCALE)"
    by (auto simp: math_exp_def split: if_splits)
  with w ok S show ?thesis
    by (simp add: f fields_ok_def time_ok_def)
qed

lemma timegm_strict:
  assumes "fields_ok tm" and "fields_ok tm'"
  shows "(tm < tm' \<longleftrightarrow> timegm tm < timegm tm') \<and> (tm = tm' \<longleftrightarrow> timegm tm = timegm tm')"
proof (rule strict_mono_on_iff [where P = fields_ok])
  fix x y :: struct_time
  assume "fields_ok x" "fields_ok y" "x < y"
  then show "timegm x < timegm y"
    by (cases x, cases y) (simp only: fields_ok_def prod.case, elim conjE, rule timegm_mono)
qed (use assms in simp_all)

text \<open>A zone with a fixed offset from UTC is strictly increasing in the wall-clock time.\<close>

lemma fixed_offset_strict_mono: "strict_mono (\<lambda>w :: int. w - off)"
  by (simp add: strict_mono_def)

lemma utc_strict_mono: "strict_mono utc"
  by (simp add: strict_mono_def utc_def)

text \<open>
  C7, as stated, fails. \<open>strptime\<close> accepts fields that are not zero-padded:
  \<open>20101201-000000\<close> and \<open>2010121-000000\<close> are both 1 December 2010, with the same
  value, and the first is lexically less; \<open>2010910-000000\<close> is 10 September 2010 and has a
  lower value than \<open>20101001-000000\<close>, which is lexically less (both in UTC). And
  \<open>mktime\<close> reads local time: in \<open>dst_zone\<close>, where the clock is set forward from 02:00
  to 03:00 on 28 March 2010, the zero-padded names \<open>20100328-020000\<close> and
  \<open>20100328-030000\<close> have the same value, and \<open>20100328-023000\<close> has a higher value
  than \<open>20100328-030000\<close>.
\<close>

theorem lexical_order_counterexample:
  "valid utc ''20101201-000000'' \<and> valid utc ''2010121-000000'' \<and>
   \<not> (''20101201-000000'' < ''2010121-000000'' \<longleftrightarrow>
        timef utc ''20101201-000000'' < timef utc ''2010121-000000'') \<and>
   valid utc ''20101001-000000'' \<and> valid utc ''2010910-000000'' \<and>
   \<not> (''20101001-000000'' < ''2010910-000000'' \<longleftrightarrow>
        timef utc ''20101001-000000'' < timef utc ''2010910-000000'') \<and>
   canonical ''20100328-020000'' \<and> canonical ''20100328-023000'' \<and>
   canonical ''20100328-030000'' \<and>
   valid dst_zone ''20100328-020000'' \<and> valid dst_zone ''20100328-023000'' \<and>
   valid dst_zone ''20100328-030000'' \<and>
   \<not> (''20100328-020000'' < ''20100328-030000'' \<longleftrightarrow>
        timef dst_zone ''20100328-020000'' < timef dst_zone ''20100328-030000'') \<and>
   \<not> (''20100328-023000'' < ''20100328-030000'' \<longleftrightarrow>
        timef dst_zone ''20100328-023000'' < timef dst_zone ''20100328-030000'')"
proof -
  have i: "instant utc ''2010121-000000'' = Some 1291161600"
    "instant utc ''20101001-000000'' = Some 1285891200"
    "instant utc ''2010910-000000'' = Some 1284076800"
    "instant dst_zone ''20100328-020000'' = Some 1269738000"
    "instant dst_zone ''20100328-023000'' = Some 1269739800"
    "instant dst_zone ''20100328-030000'' = Some 1269738000"
    by code_simp+
  have t: "timef utc ''2010121-000000'' = Some (exp (1291161600 / TIME_SCALE))"
    "timef utc ''20101001-000000'' = Some (exp (1285891200 / TIME_SCALE))"
    "timef utc ''2010910-000000'' = Some (exp (1284076800 / TIME_SCALE))"
    "timef dst_zone ''20100328-020000'' = Some (exp (1269738000 / TIME_SCALE))"
    "timef dst_zone ''20100328-023000'' = Some (exp (1269739800 / TIME_SCALE))"
    "timef dst_zone ''20100328-030000'' = Some (exp (1269738000 / TIME_SCALE))"
    using i timef_at by fastforce+
  have l: "''20101201-000000'' < ''2010121-000000''" "''20101001-000000'' < ''2010910-000000''"
    "''20100328-020000'' < ''20100328-030000''" "''20100328-023000'' < ''20100328-030000''"
    by code_simp+
  have c: "canonical ''20100328-020000''" "canonical ''20100328-023000''"
    "canonical ''20100328-030000''"
    by code_simp+
  show ?thesis
    using l c by (simp add: t timef_000000 valid_def truthy_def scaled_less)
qed

text \<open>
  C7, amended. For two valued names of the exact form \<open>YYYYMMDD-HHMMSS\<close> (fifteen
  characters, every field zero-padded), with years from 1900 on and seconds up to 59, in
  a time zone where \<open>mktime\<close> is strictly increasing in the wall-clock time (every zone
  with a fixed offset from UTC, UTC itself among them): the first is lexically less than
  the second if and only if its value is less. Nothing is said of a zone whose clock is
  set forward.
\<close>

theorem canonical_order_is_value_order:
  assumes "canonical a" and "canonical b" and "valid tz a" and "valid tz b"
    and "1900 \<le> year_of a" and "1900 \<le> year_of b"
    and "second_of a \<le> 59" and "second_of b \<le> 59"
    and "strict_mono tz"
  shows "a < b \<longleftrightarrow> timef tz a < timef tz b"
proof -
  from canonical_timef [OF assms(1,3,5,7)]
  have ta: "timef tz a = Some (exp (real_of_int (tz (timegm (name_fields a))) / TIME_SCALE))"
    and oa: "fields_ok (name_fields a)"
    by simp_all
  from canonical_timef [OF assms(2,4,6,8)]
  have tb: "timef tz b = Some (exp (real_of_int (tz (timegm (name_fields b))) / TIME_SCALE))"
    and ob: "fields_ok (name_fields b)"
    by simp_all
  have "a < b \<longleftrightarrow> name_fields a < name_fields b"
    using canonical_less [OF assms(1,2)] by simp
  also have "\<dots> \<longleftrightarrow> timegm (name_fields a) < timegm (name_fields b)"
    using timegm_strict [OF oa ob] by simp
  also have "\<dots> \<longleftrightarrow> tz (timegm (name_fields a)) < tz (timegm (name_fields b))"
    using assms(9) by (simp only: strict_mono_less)
  also have "\<dots> \<longleftrightarrow> timef tz a < timef tz b"
    unfolding ta tb by (simp add: scaled_less)
  finally show ?thesis .
qed

theorem canonical_order_is_value_order_witness:
  "canonical ''20101201-000000'' \<and> canonical ''20101201-010000'' \<and>
   valid utc ''20101201-000000'' \<and> valid utc ''20101201-010000'' \<and>
   1900 \<le> year_of ''20101201-000000'' \<and> 1900 \<le> year_of ''20101201-010000'' \<and>
   second_of ''20101201-000000'' \<le> 59 \<and> second_of ''20101201-010000'' \<le> 59 \<and>
   strict_mono utc \<and>
   ''20101201-000000'' < ''20101201-010000'' \<and>
   timef utc ''20101201-000000'' < timef utc ''20101201-010000''"
proof -
  have c: "canonical ''20101201-000000''" "canonical ''20101201-010000''"
    by code_simp+
  have v: "valid utc ''20101201-000000''" "valid utc ''20101201-010000''"
    by (simp_all add: valid_def truthy_def timef_000000 timef_010000)
  have y: "1900 \<le> year_of ''20101201-000000''" "1900 \<le> year_of ''20101201-010000''"
    by code_simp+
  have s: "second_of ''20101201-000000'' \<le> 59" "second_of ''20101201-010000'' \<le> 59"
    by code_simp+
  have m: "strict_mono utc"
    by (rule utc_strict_mono)
  have l: "''20101201-000000'' < ''20101201-010000''"
    by code_simp
  from canonical_order_is_value_order [OF c v y s m] l
  have "timef utc ''20101201-000000'' < timef utc ''20101201-010000''"
    by (rule iffD1)
  with c v y s m l show ?thesis
    by (intro conjI)
qed

section \<open>Names that are not timestamps\<close>

lemma valued_filter: "valued tz [d \<leftarrow> dirs. valid tz d] = valued tz dirs"
  by (simp add: valued_def)

lemma sorted_value_filter:
  assumes "distinct dirs"
  shows "sorted_value tz [d \<leftarrow> dirs. valid tz d] = sorted_value tz dirs"
proof -
  have "distinct [d \<leftarrow> dirs. valid tz d]"
    using assms by simp
  then have "initial_candidates tz [d \<leftarrow> dirs. valid tz d] = initial_candidates tz dirs"
    using assms by (simp only: initial_candidates_eq valued_filter)
  then show ?thesis
    by (simp only: sorted_value_eq_loop)
qed

lemma sorted_value_without:
  assumes "\<not> valid tz x" and "distinct (pre @ x # post)"
  shows "sorted_value tz (pre @ x # post) = sorted_value tz (pre @ post)"
proof -
  have f: "[d \<leftarrow> pre @ x # post. valid tz d] = [d \<leftarrow> pre @ post. valid tz d]"
    using assms(1) by simp
  have d: "distinct (pre @ post)"
    using assms(2) by simp
  show ?thesis
    using sorted_value_filter [OF assms(2), of tz] sorted_value_filter [OF d, of tz]
    by (simp only: f)
qed

lemma Operations_cong:
  assumes "\<And>u. [d \<leftarrow> l u. valid tz d] = [d \<leftarrow> l' u. valid tz d]"
  shows "Operations tz l f del = Operations tz l' f del"
  using assms by (simp add: Operations_def Operations_listdir_def valid_def)

lemma strptime_lost_found: "strptime (os_path_split_tail ''lost+found'') = Inl ValueError"
  by code_simp

lemma sorted_value_two_names_and_one:
  "sorted_value utc [''20101201-000000'', ''20101201-010000'', ''lost+found'']
     = [''20101201-000000'']"
proof -
  have "\<not> valid utc ''lost+found''"
    using strptime_lost_found by (simp add: valid_def truthy_def strptime_fails)
  moreover have "distinct ([''20101201-000000'', ''20101201-010000''] @ ''lost+found'' # [])"
    by simp
  ultimately have "sorted_value utc ([''20101201-000000'', ''20101201-010000''] @ ''lost+found'' # [])
      = sorted_value utc ([''20101201-000000'', ''20101201-010000''] @ [])"
    by (rule sorted_value_without)
  then show ?thesis
    by (simp only: sorted_value_two_names append.simps)
qed

lemma sort_two_names_and_one:
  "sort [''20101201-000000'', ''20101201-010000'', ''lost+found'']
     = [''20101201-000000'', ''20101201-010000'', ''lost+found'']"
  by code_simp

lemma sort_one_name_and_one:
  "sort [''20101201-010000'', ''lost+found''] = [''20101201-010000'', ''lost+found'']"
  by code_simp

text \<open>
  C6, as stated, fails for the controller's listing and count. \<open>cleandir\<close> counts the
  names that the backend lists and filters nothing itself; the filter is in
  \<open>Operations.listdir\<close>, and \<open>FakeOperations.listdir\<close> has none. On \<open>FakeOperations\<close>
  with two snapshots and the name \<open>lost+found\<close>, which \<open>strptime\<close> refuses, and with
  \<open>keep_backups = 2\<close> and \<open>target_backups = 0\<close>: the name is listed, the count is three,
  above the floor, and the older snapshot is removed, so that one snapshot is left;
  without the name the count is two and nothing is removed.
\<close>

theorem malformed_name_counted_counterexample:
  "strptime (os_path_split_tail ''lost+found'') = Inl ValueError \<and>
   ''lost+found'' \<in> set (listdir FakeOperations
     \<lparr>fake_dirs = [(''20101201-000000'', 1), (''20101201-010000'', 1), (''lost+found'', 1)],
      fake_space = 0\<rparr>) \<and>
   cleandir utc 2 FakeOperations
     \<lparr>keep_backups = Some 2, target_freespace = None, target_backups = Some 0,
      target_removed = None\<rparr>
     \<lparr>fake_dirs = [(''20101201-000000'', 1), (''20101201-010000'', 1), (''lost+found'', 1)],
      fake_space = 0\<rparr>
   = \<lparr>outcome = Clean Reached_keep_backups,
      backend = \<lparr>fake_dirs = [(''20101201-010000'', 1), (''lost+found'', 1)], fake_space = 1\<rparr>,
      removed = [''20101201-000000'']\<rparr> \<and>
   cleandir utc 2 FakeOperations
     \<lparr>keep_backups = Some 2, target_freespace = None, target_backups = Some 0,
      target_removed = None\<rparr>
     \<lparr>fake_dirs = [(''20101201-000000'', 1), (''20101201-010000'', 1)], fake_space = 0\<rparr>
   = \<lparr>outcome = Clean Reached_keep_backups,
      backend = \<lparr>fake_dirs = [(''20101201-000000'', 1), (''20101201-010000'', 1)],
                 fake_space = 0\<rparr>,
      removed = []\<rparr>"
proof -
  let ?tg = "\<lparr>keep_backups = Some 2, target_freespace = None, target_backups = Some 0,
    target_removed = None\<rparr>"
  let ?f3 = "\<lparr>fake_dirs = [(''20101201-000000'', 1), (''20101201-010000'', 1),
    (''lost+found'', 1)], fake_space = 0\<rparr>"
  let ?f2 = "\<lparr>fake_dirs = [(''20101201-010000'', 1), (''lost+found'', 1)], fake_space = 1\<rparr>"
  let ?g = "\<lparr>fake_dirs = [(''20101201-000000'', 1), (''20101201-010000'', 1)],
    fake_space = 0\<rparr>"
  let ?st1 = "\<lparr>last_dirs = [''20101201-000000'', ''20101201-010000'', ''lost+found''],
    target_removed_var = None, was_above_target_freespace = None,
    was_above_target_backups = Some True\<rparr>"
  have b1: "cleandir_body utc FakeOperations ?tg (initial_state ?tg) ?f3
      = Delete ?st1 ''20101201-000000''"
    by (simp add: cleandir_body_def FakeOperations_def sort_two_names_and_one
        sorted_value_two_names_and_one vote_freespace_def vote_backups_def first_def Let_def
        initial_state_def del: sort_key_simps)
  have u: "unsnap FakeOperations ?f3 ''20101201-000000'' = Inr ?f2"
    by (simp add: FakeOperations_def fake_unsnap_def)
  have b2: "cleandir_body utc FakeOperations ?tg ?st1 ?f2 = Break Reached_keep_backups"
    by (rule body_keep [where k = 2]) (simp_all add: FakeOperations_def sort_one_name_and_one
        del: sort_key_simps)
  have "cleandir_loop utc (Suc (Suc 0)) FakeOperations ?tg (initial_state ?tg) ?f3 []
      = \<lparr>outcome = Clean Reached_keep_backups, backend = ?f2, removed = [''20101201-000000'']\<rparr>"
    by (simp add: b1 u b2)
  then have r3: "cleandir utc 2 FakeOperations ?tg ?f3
      = \<lparr>outcome = Clean Reached_keep_backups, backend = ?f2, removed = [''20101201-000000'']\<rparr>"
    by (simp only: cleandir_def numeral_2_eq_2)
  have "cleandir utc (Suc (Suc 0)) FakeOperations ?tg ?g
      = \<lparr>outcome = (if listdir FakeOperations ?g = [] then Fatal No_more_directories_to_clean
                     else Clean Reached_keep_backups),
         backend = ?g, removed = []\<rparr>"
    by (rule first_run_keep [where k = 2]) (simp_all add: FakeOperations_def)
  then have r2: "cleandir utc 2 FakeOperations ?tg ?g
      = \<lparr>outcome = Clean Reached_keep_backups, backend = ?g, removed = []\<rparr>"
    by (simp add: FakeOperations_def numeral_2_eq_2)
  have l: "''lost+found'' \<in> set (listdir FakeOperations ?f3)"
    by (simp add: FakeOperations_def)
  from strptime_lost_found l r3 r2 show ?thesis
    by (intro conjI)
qed

text \<open>
  C6, amended. For a name that \<open>strptime\<close> refuses, in any time zone: \<open>timef\<close> returns
  \<open>None\<close> (it does not raise); the name is no candidate of the planner, is not yielded
  by it, and a list of distinct names is planned as it is without the name;
  \<open>Operations.listdir\<close> leaves the name out, so that on the \<open>Operations\<close> backend a run
  of \<open>cleandir\<close> is the run on the directory without the name (it is neither listed nor
  counted); and no run of \<open>cleandir\<close>, on any backend, removes the name.
\<close>

theorem malformed_name_excluded:
  assumes "strptime (os_path_split_tail x) = Inl e"
  shows "timef tz x = None \<and>
         x \<notin> fst ` set (initial_candidates tz dirs) \<and>
         x \<notin> set (sorted_value tz dirs) \<and>
         (distinct (pre @ x # post) \<longrightarrow>
            sorted_value tz (pre @ x # post) = sorted_value tz (pre @ post)) \<and>
         x \<notin> set (listdir (Operations tz os_listdir statvfs_free btrfs_delete) u) \<and>
         Operations_listdir tz (pre @ x # post) = Operations_listdir tz (pre @ post) \<and>
         cleandir tz fuel
             (Operations tz (\<lambda>u. before u @ x # after u) statvfs_free btrfs_delete) tg u
           = cleandir tz fuel
               (Operations tz (\<lambda>u. before u @ after u) statvfs_free btrfs_delete) tg u \<and>
         x \<notin> set (removed (cleandir tz fuel ops tg s))"
proof -
  have n: "timef tz x = None"
    using assms by (rule strptime_fails)
  then have nv: "\<not> valid tz x"
    by (rule timef_None_invalid)
  have "x \<notin> fst ` set (initial_candidates tz dirs)"
    using keys_initial_candidates_valid [of tz dirs] nv by auto
  moreover have "x \<notin> set (sorted_value tz dirs)"
    using set_sorted_value [of tz dirs] nv by auto
  moreover have "distinct (pre @ x # post) \<longrightarrow>
      sorted_value tz (pre @ x # post) = sorted_value tz (pre @ post)"
    using sorted_value_without [OF nv] by blast
  moreover have "x \<notin> set (listdir (Operations tz os_listdir statvfs_free btrfs_delete) u)"
    using nv by (simp add: Operations_def Operations_listdir_def valid_def)
  moreover have "Operations_listdir tz (pre @ x # post) = Operations_listdir tz (pre @ post)"
    using nv by (simp add: Operations_listdir_def valid_def)
  moreover have "Operations tz (\<lambda>u. before u @ x # after u) statvfs_free btrfs_delete
      = Operations tz (\<lambda>u. before u @ after u) statvfs_free btrfs_delete"
    by (rule Operations_cong) (simp add: nv)
  then have "cleandir tz fuel
        (Operations tz (\<lambda>u. before u @ x # after u) statvfs_free btrfs_delete) tg u
      = cleandir tz fuel
        (Operations tz (\<lambda>u. before u @ after u) statvfs_free btrfs_delete) tg u"
    by (rule arg_cong [where f = "\<lambda>ops. cleandir tz fuel ops tg u"])
  moreover have "x \<notin> set (removed (cleandir tz fuel ops tg s))"
    using removed_valid [of x tz fuel ops tg "initial_state tg" s "[]"] nv
    by (auto simp: cleandir_def)
  ultimately show ?thesis
    using n by (intro conjI)
qed

theorem malformed_name_excluded_witness:
  "strptime (os_path_split_tail ''lost+found'') = Inl ValueError \<and>
   timef utc ''lost+found'' = None \<and>
   ''lost+found'' \<notin> set (sorted_value utc [''20101201-000000'', ''20101201-010000'', ''lost+found'']) \<and>
   distinct ([''20101201-000000''] @ ''lost+found'' # [''20101201-010000'']) \<and>
   sorted_value utc ([''20101201-000000''] @ ''lost+found'' # [''20101201-010000''])
     = sorted_value utc ([''20101201-000000''] @ [''20101201-010000'']) \<and>
   ''lost+found'' \<notin> set (listdir
       (Operations utc (\<lambda>_ :: unit. [''lost+found'', ''20101201-000000'']) (\<lambda>_. 0) (\<lambda>u _. Inr u)) ()) \<and>
   Operations_listdir utc ([''20101201-000000''] @ ''lost+found'' # [''20101201-010000''])
     = Operations_listdir utc ([''20101201-000000''] @ [''20101201-010000'']) \<and>
   cleandir utc 3
       (Operations utc (\<lambda>_ :: unit. [''20101201-000000''] @ ''lost+found'' # [''20101201-010000''])
          (\<lambda>_. 0) (\<lambda>u _. Inr u))
       \<lparr>keep_backups = None, target_freespace = None, target_backups = Some 0, target_removed = None\<rparr> ()
     = cleandir utc 3
         (Operations utc (\<lambda>_ :: unit. [''20101201-000000''] @ [''20101201-010000''])
            (\<lambda>_. 0) (\<lambda>u _. Inr u))
         \<lparr>keep_backups = None, target_freespace = None, target_backups = Some 0, target_removed = None\<rparr> () \<and>
   ''lost+found'' \<notin> set (removed (cleandir utc 3 FakeOperations
       \<lparr>keep_backups = None, target_freespace = None, target_backups = Some 0, target_removed = None\<rparr>
       \<lparr>fake_dirs = [(''20101201-000000'', 1), (''lost+found'', 1), (''20101201-010000'', 1)],
        fake_space = 0\<rparr>))"
proof -
  have h: "strptime (os_path_split_tail ''lost+found'') = Inl ValueError"
    by code_simp
  have d: "distinct ([''20101201-000000''] @ ''lost+found'' # [''20101201-010000''])"
    by simp
  note t = malformed_name_excluded [OF h,
      where tz = utc
        and dirs = "[''20101201-000000'', ''20101201-010000'', ''lost+found'']"
        and os_listdir = "\<lambda>_ :: unit. [''lost+found'', ''20101201-000000'']"
        and statvfs_free = "\<lambda>_. 0" and btrfs_delete = "\<lambda>u _. Inr u" and u = "()"
        and pre = "[''20101201-000000'']" and post = "[''20101201-010000'']"
        and before = "\<lambda>_. [''20101201-000000'']" and after = "\<lambda>_. [''20101201-010000'']"
        and fuel = 3 and ops = FakeOperations
        and tg = "\<lparr>keep_backups = None, target_freespace = None, target_backups = Some 0,
                   target_removed = None\<rparr>"
        and s = "\<lparr>fake_dirs = [(''20101201-000000'', 1), (''lost+found'', 1),
                   (''20101201-010000'', 1)], fake_space = 0\<rparr>"]
  note t1 = t [THEN conjunct1]
  note t3 = t [THEN conjunct2, THEN conjunct2, THEN conjunct1]
  note t4 = t [THEN conjunct2, THEN conjunct2, THEN conjunct2, THEN conjunct1, THEN mp, OF d]
  note t5 = t [THEN conjunct2, THEN conjunct2, THEN conjunct2, THEN conjunct2, THEN conjunct1]
  note t6 = t [THEN conjunct2, THEN conjunct2, THEN conjunct2, THEN conjunct2, THEN conjunct2,
      THEN conjunct1]
  note t7 = t [THEN conjunct2, THEN conjunct2, THEN conjunct2, THEN conjunct2, THEN conjunct2,
      THEN conjunct2, THEN conjunct1]
  note t8 = t [THEN conjunct2, THEN conjunct2, THEN conjunct2, THEN conjunct2, THEN conjunct2,
      THEN conjunct2, THEN conjunct2]
  from h t1 t3 d t4 t5 t6 t7 t8 show ?thesis
    by (intro conjI)
qed

end
